theory Spec2Isabelle
  imports Main
begin

section \<open>The regular expressions of \<open>parser/tokenizer.go\<close>\<close>

text \<open>
  The tokenizer matches byte slices against five patterns compiled by Go's \<open>regexp\<close>
  package. The patterns use only: the anchor \<open>^\<close>, the ASCII word boundary \<open>\b\<close>,
  literals, repetition \<open>*\<close> and \<open>+\<close> of a character class, \<open>?\<close>, alternation,
  concatenation and one capture group. \<open>regex\<close> is the syntax of that fragment.

  Bytes are \<open>char\<close>s. Go decodes the slice as UTF-8, one invalid byte being one rune
  U+FFFD; a class of ASCII ranges therefore matches exactly the bytes in the ranges, and
  the negated class \<open>[^\n]\<close> matches every rune but the line feed, that is every run of
  bytes without the byte \<open>0x0A\<close>. So matching byte by byte gives the same spans.
\<close>

datatype cclass = In "(char \<times> char) list" | NotIn "(char \<times> char) list"

datatype regex =
    BeginText
  | WordBoundary
  | Lit string
  | Star cclass
  | Plus cclass
  | Quest regex
  | Alt regex regex
  | Cat regex regex
  | Group regex

definition inRanges :: "(char \<times> char) list \<Rightarrow> char \<Rightarrow> bool" where
  "inRanges rs c =
     list_ex (\<lambda>(lo, hi). (of_char lo :: nat) \<le> of_char c \<and> (of_char c :: nat) \<le> of_char hi) rs"

fun inClass :: "cclass \<Rightarrow> char \<Rightarrow> bool" where
  "inClass (In rs) c = inRanges rs c"
| "inClass (NotIn rs) c = (\<not> inRanges rs c)"

text \<open>\<open>\b\<close> of Go's \<open>regexp\<close> is the ASCII word boundary: a word character is one of
  \<open>[0-9A-Za-z_]\<close>, and the text before the start and after the end counts as non-word.\<close>

definition isWordChar :: "char \<Rightarrow> bool" where
  "isWordChar c =
     inRanges [(CHR ''0'', CHR ''9''), (CHR ''A'', CHR ''Z''), (CHR ''a'', CHR ''z''),
               (CHR ''_'', CHR ''_'')] c"

definition wordAt :: "string \<Rightarrow> bool" where
  "wordAt s = (case s of [] \<Rightarrow> False | c # _ \<Rightarrow> isWordChar c)"

text \<open>
  A configuration of the matcher is \<open>(b, a, g)\<close>: the bytes before the cursor, latest
  first; the bytes after the cursor; the text of capture group 1, if it has matched.
  \<open>rmatch r cfg\<close> lists the configurations in which a match of \<open>r\<close> started at \<open>cfg\<close>
  can end, in the order in which a backtracking matcher prefers them (greedy repetition,
  alternatives from left to right). Its head is the leftmost-first match that Go reports.
\<close>

type_synonym cfg = "string \<times> string \<times> string option"

fun rmatch :: "regex \<Rightarrow> cfg \<Rightarrow> cfg list" where
  "rmatch BeginText (b, a, g) = (if b = [] then [(b, a, g)] else [])"
| "rmatch WordBoundary (b, a, g) = (if wordAt b \<noteq> wordAt a then [(b, a, g)] else [])"
| "rmatch (Lit l) (b, a, g) =
     (if take (length l) a = l then [(rev l @ b, drop (length l) a, g)] else [])"
| "rmatch (Star cl) (b, a, g) =
     map (\<lambda>n. (rev (take n a) @ b, drop n a, g))
         (rev [0 ..< Suc (length (takeWhile (inClass cl) a))])"
| "rmatch (Plus cl) (b, a, g) =
     map (\<lambda>n. (rev (take n a) @ b, drop n a, g))
         (rev [1 ..< Suc (length (takeWhile (inClass cl) a))])"
| "rmatch (Quest r) (b, a, g) = rmatch r (b, a, g) @ [(b, a, g)]"
| "rmatch (Alt r1 r2) (b, a, g) = rmatch r1 (b, a, g) @ rmatch r2 (b, a, g)"
| "rmatch (Cat r1 r2) (b, a, g) = concat (map (rmatch r2) (rmatch r1 (b, a, g)))"
| "rmatch (Group r) (b, a, g) =
     map (\<lambda>(b', a', g'). (b', a', Some (rev (take (length b' - length b) b'))))
         (rmatch r (b, a, g))"

text \<open>The search for the leftmost match: try the current position, then move one byte on.
  The result is the matched text (\<open>found[0]\<close>) and the capture (\<open>found[1]\<close>).\<close>

fun findFrom :: "regex \<Rightarrow> string \<Rightarrow> string \<Rightarrow> (string \<times> string option) option" where
  "findFrom r b [] =
     (case rmatch r (b, [], None) of
        [] \<Rightarrow> None
      | (b', a', g') # _ \<Rightarrow> Some (rev (take (length b' - length b) b'), g'))"
| "findFrom r b (c # a) =
     (case rmatch r (b, c # a, None) of
        [] \<Rightarrow> findFrom r (c # b) a
      | (b', a', g') # _ \<Rightarrow> Some (rev (take (length b' - length b) b'), g'))"

definition FindSubmatch :: "regex \<Rightarrow> string \<Rightarrow> (string \<times> string option) option" where
  "FindSubmatch r s = findFrom r [] s"

definition Find :: "regex \<Rightarrow> string \<Rightarrow> string option" where
  "Find r s = map_option fst (FindSubmatch r s)"

subsection \<open>The package's patterns\<close>

abbreviation tabChar :: char where "tabChar \<equiv> CHR 0x09"
abbreviation newlineChar :: char where "newlineChar \<equiv> CHR 0x0A"
abbreviation returnChar :: char where "returnChar \<equiv> CHR 0x0D"
abbreviation quoteChar :: char where "quoteChar \<equiv> CHR 0x22"
abbreviation backslashChar :: char where "backslashChar \<equiv> CHR 0x5C"

text \<open>\<^verbatim>\<open>var symbols = []string{"++", "--", ">=", "<=", "!=", "==", "==", "+=", "-=", "*=", "/=", "%=",
        "=", ">", "<", "+", "-", "*", "/", "^", "%", ",", "(", ")"}\<close>\<close>

definition symbols :: "string list" where
  "symbols = [''++'', ''--'', ''>='', ''<='', ''!='', ''=='', ''=='', ''+='', ''-='', ''*='',
              ''/='', ''%='',
              ''='', ''>'', ''<'', ''+'', ''-'', ''*'', ''/'', ''^'', ''%'', '','', ''('', '')'']"

text \<open>\<^verbatim>\<open>^\b(if|else|end|then|goto|and|or|not)\b\<close>\<close>

definition keywordRegex :: regex where
  "keywordRegex =
     Cat BeginText (Cat WordBoundary (Cat
       (Group (Alt (Lit ''if'') (Alt (Lit ''else'') (Alt (Lit ''end'') (Alt (Lit ''then'')
              (Alt (Lit ''goto'') (Alt (Lit ''and'') (Alt (Lit ''or'') (Lit ''not'')))))))))
       WordBoundary))"

text \<open>\<^verbatim>\<open>^:?[a-zA-Z]+[a-zA-Z0-9_]*\<close>\<close>

definition identifierRegex :: regex where
  "identifierRegex =
     Cat BeginText (Cat (Quest (Lit '':''))
       (Cat (Plus (In [(CHR ''a'', CHR ''z''), (CHR ''A'', CHR ''Z'')]))
            (Star (In [(CHR ''a'', CHR ''z''), (CHR ''A'', CHR ''Z''), (CHR ''0'', CHR ''9''),
                       (CHR ''_'', CHR ''_'')]))))"

text \<open>\<^verbatim>\<open>^[0-9]+(\.[0-9]+)?\<close>\<close>

definition numberRegex :: regex where
  "numberRegex =
     Cat BeginText (Cat (Plus (In [(CHR ''0'', CHR ''9'')]))
       (Quest (Group (Cat (Lit ''.'') (Plus (In [(CHR ''0'', CHR ''9'')]))))))"

text \<open>\<^verbatim>\<open>^[ \t]*\/\/([^\n]*)\<close> (the Go string literal holds a line feed in the last class).\<close>

definition commentRegex :: regex where
  "commentRegex =
     Cat BeginText (Cat (Star (In [(CHR '' '', CHR '' ''), (tabChar, tabChar)]))
       (Cat (Lit ''//'') (Group (Star (NotIn [(newlineChar, newlineChar)])))))"

text \<open>\<^verbatim>\<open>^[ \t\r]+\<close>\<close>

definition whitespaceRegex :: regex where
  "whitespaceRegex =
     Cat BeginText (Plus (In [(CHR '' '', CHR '' ''), (tabChar, tabChar),
                              (returnChar, returnChar)]))"

section \<open>Tokens and the tokenizer's state\<close>

abbreviation TypeID :: string where "TypeID \<equiv> ''ID''"
abbreviation TypeNumber :: string where "TypeNumber \<equiv> ''Number''"
abbreviation TypeString :: string where "TypeString \<equiv> ''String''"
abbreviation TypeKeyword :: string where "TypeKeyword \<equiv> ''Keyword''"
abbreviation TypeSymbol :: string where "TypeSymbol \<equiv> ''Symbol''"
abbreviation TypeNewline :: string where "TypeNewline \<equiv> ''Newline''"
abbreviation TypeEOF :: string where "TypeEOF \<equiv> ''EOF''"
abbreviation TypeComment :: string where "TypeComment \<equiv> ''Comment''"
abbreviation TypeWhitespace :: string where "TypeWhitespace \<equiv> ''Whitespace''"
abbreviation TypeUnknown :: string where "TypeUnknown \<equiv> ''Unknown''"

text \<open>
  The structs \<open>Position\<close>, \<open>Token\<close> and \<open>Tokenizer\<close>. The field \<open>Position\<close> of a token is
  \<open>Pos\<close> here, the field \<open>text\<close> of the tokenizer is \<open>inputText\<close> and its field \<open>symbols\<close>
  (set by \<open>NewTokenizer\<close>, never read) is \<open>symbolsField\<close>. Lines and columns are Go
  \<open>int\<close>s; they are never larger than the length of the input plus one, so the model
  counts in \<open>int\<close> without wrap-around. The fields that hold compiled patterns hold their
  syntax.
\<close>

record Position =
  Line :: int
  Coloumn :: int

record Token =
  Type :: string
  Value :: string
  Pos :: Position

record Tokenizer =
  column :: int
  line :: int
  inputText :: string
  remaining :: string
  symbolsField :: "string list"
  KeywordRegex :: regex
  IdentifierRegex :: regex
  NumberRegex :: regex
  CommentRegex :: regex

text \<open>A run-time panic of the Go program is a value: slicing or indexing out of range.\<close>

datatype error = SliceBoundsOutOfRange | IndexOutOfRange

definition NewTokenizer :: Tokenizer where
  "NewTokenizer =
     \<lparr>column = 0, line = 0, inputText = [], remaining = [], symbolsField = symbols,
      KeywordRegex = keywordRegex, IdentifierRegex = identifierRegex,
      NumberRegex = numberRegex, CommentRegex = commentRegex\<rparr>"

definition newToken :: "Tokenizer \<Rightarrow> string \<Rightarrow> string \<Rightarrow> Token" where
  "newToken t typ val =
     \<lparr>Type = typ, Value = val, Pos = \<lparr>Line = line t, Coloumn = column t\<rparr>\<rparr>"

subsection \<open>\<open>Load\<close>\<close>

text \<open>
  \<open>strings.ToLower\<close> of the standard library: a string of ASCII bytes only is
  lowered byte by byte (and returned as it is when it has no upper-case letter); any
  other string goes through \<open>strings.Map(unicode.ToLower, s)\<close>, whose Unicode tables
  are not part of this repository and are the parameter \<open>unicodeLower\<close>.
\<close>

definition lowerByte :: "char \<Rightarrow> char" where
  "lowerByte c =
     (if (of_char CHR ''A'' :: nat) \<le> of_char c \<and> (of_char c :: nat) \<le> of_char CHR ''Z''
      then char_of ((of_char c :: nat) + 32) else c)"

definition ToLower :: "(string \<Rightarrow> string) \<Rightarrow> string \<Rightarrow> string" where
  "ToLower unicodeLower s =
     (let isASCII = list_all (\<lambda>c. (of_char c :: nat) < 128) s;
          hasUpper = list_ex (\<lambda>c. (of_char CHR ''A'' :: nat) \<le> of_char c
                                  \<and> (of_char c :: nat) \<le> of_char CHR ''Z'') s
      in if isASCII then (if \<not> hasUpper then s else map lowerByte s)
         else unicodeLower s)"

definition Load :: "(string \<Rightarrow> string) \<Rightarrow> string \<Rightarrow> Tokenizer \<Rightarrow> Tokenizer" where
  "Load unicodeLower input t =
     t\<lparr>column := 1, inputText := input, remaining := ToLower unicodeLower input, line := 1\<rparr>"

subsection \<open>The recognizers\<close>

text \<open>\<open>t.remaining = t.remaining[amount:]\<close> panics unless \<open>0 \<le> amount \<le> len\<close>.\<close>

definition advance :: "int \<Rightarrow> Tokenizer \<Rightarrow> error + Tokenizer" where
  "advance amount t =
     (if 0 \<le> amount \<and> amount \<le> int (length (remaining t))
      then Inr (t\<lparr>column := column t + amount, remaining := drop (nat amount) (remaining t)\<rparr>)
      else Inl SliceBoundsOutOfRange)"

text \<open>\<open>defer t.advance(amount); return tok\<close>: the token is built from the state before the
  deferred call runs.\<close>

definition deferAdvance ::
  "int \<Rightarrow> Token \<Rightarrow> Tokenizer \<Rightarrow> error + (Token option \<times> Tokenizer)" where
  "deferAdvance amount tok t =
     (case advance amount t of Inl e \<Rightarrow> Inl e | Inr t' \<Rightarrow> Inr (Some tok, t'))"

definition getWhitespace :: "Tokenizer \<Rightarrow> error + (Token option \<times> Tokenizer)" where
  "getWhitespace t =
     (case Find whitespaceRegex (remaining t) of
        Some found \<Rightarrow> deferAdvance (int (length found)) (newToken t TypeWhitespace found) t
      | None \<Rightarrow> Inr (None, t))"

definition getNewline :: "Tokenizer \<Rightarrow> error + (Token option \<times> Tokenizer)" where
  "getNewline t =
     (if length (remaining t) > 0 \<and> remaining t ! 0 = newlineChar
      then (case advance 1 (t\<lparr>line := line t + 1, column := 0\<rparr>) of
              Inl e \<Rightarrow> Inl e
            | Inr t' \<Rightarrow> Inr (Some (newToken t TypeNewline []), t'))
      else Inr (None, t))"

text \<open>\<open>bytes.HasPrefix(s, prefix)\<close>\<close>

definition HasPrefix :: "string \<Rightarrow> string \<Rightarrow> bool" where
  "HasPrefix s p = (length p \<le> length s \<and> take (length p) s = p)"

text \<open>The loop of \<open>getSymbol\<close> over the package-level list \<open>symbols\<close> (not the field).\<close>

fun getSymbolLoop :: "string list \<Rightarrow> Tokenizer \<Rightarrow> error + (Token option \<times> Tokenizer)" where
  "getSymbolLoop [] t = Inr (None, t)"
| "getSymbolLoop (symbol # rest) t =
     (if HasPrefix (remaining t) symbol
      then deferAdvance (int (length symbol)) (newToken t TypeSymbol symbol) t
      else getSymbolLoop rest t)"

definition getSymbol :: "Tokenizer \<Rightarrow> error + (Token option \<times> Tokenizer)" where
  "getSymbol t = getSymbolLoop symbols t"

definition getComment :: "Tokenizer \<Rightarrow> error + (Token option \<times> Tokenizer)" where
  "getComment t =
     (case Find (CommentRegex t) (remaining t) of
        Some found \<Rightarrow> deferAdvance (int (length found)) (newToken t TypeComment found) t
      | None \<Rightarrow> Inr (None, t))"

definition getKeyword :: "Tokenizer \<Rightarrow> error + (Token option \<times> Tokenizer)" where
  "getKeyword t =
     (case FindSubmatch (KeywordRegex t) (remaining t) of
        Some (found0, found1) \<Rightarrow>
          (let kw = (case found1 of None \<Rightarrow> [] | Some s \<Rightarrow> s)
           in deferAdvance (int (length found0)) (newToken t TypeKeyword kw) t)
      | None \<Rightarrow> Inr (None, t))"

definition getIdentifier :: "Tokenizer \<Rightarrow> error + (Token option \<times> Tokenizer)" where
  "getIdentifier t =
     (case Find (IdentifierRegex t) (remaining t) of
        Some found \<Rightarrow> deferAdvance (int (length found)) (newToken t TypeID found) t
      | None \<Rightarrow> Inr (None, t))"

text \<open>The loop of \<open>getStringConstant\<close> over \<open>t.remaining[1:]\<close>: the index of the byte at
  which the loop returns, or \<open>None\<close> when the range is exhausted.\<close>

fun stringLoop :: "bool \<Rightarrow> int \<Rightarrow> string \<Rightarrow> int option" where
  "stringLoop escaped i [] = None"
| "stringLoop escaped i (b # bs) =
     (if escaped then stringLoop False (i + 1) bs
      else (let escaped' = (b = backslashChar)
            in if b = quoteChar \<and> \<not> escaped' then Some i
               else stringLoop escaped' (i + 1) bs))"

text \<open>\<open>s[lo:hi]\<close>\<close>

definition slice :: "int \<Rightarrow> int \<Rightarrow> string \<Rightarrow> error + string" where
  "slice lo hi s =
     (if 0 \<le> lo \<and> lo \<le> hi \<and> hi \<le> int (length s)
      then Inr (drop (nat lo) (take (nat hi) s)) else Inl SliceBoundsOutOfRange)"

definition getStringConstant :: "Tokenizer \<Rightarrow> error + (Token option \<times> Tokenizer)" where
  "getStringConstant t =
     (if length (remaining t) < 2 \<or> remaining t ! 0 \<noteq> quoteChar then Inr (None, t)
      else (case stringLoop False 0 (drop 1 (remaining t)) of
              None \<Rightarrow> Inr (None, t)
            | Some i \<Rightarrow>
                (case slice 1 (i + 1) (remaining t) of
                   Inl e \<Rightarrow> Inl e
                 | Inr val \<Rightarrow> deferAdvance (i + 2) (newToken t TypeString val) t)))"

definition getNumberConstant :: "Tokenizer \<Rightarrow> error + (Token option \<times> Tokenizer)" where
  "getNumberConstant t =
     (case Find (NumberRegex t) (remaining t) of
        Some found \<Rightarrow> deferAdvance (int (length found)) (newToken t TypeNumber found) t
      | None \<Rightarrow> Inr (None, t))"

text \<open>\<open>string(b)\<close> of a byte \<open>b\<close> is the UTF-8 encoding of the code point \<open>b\<close>: the byte
  itself below \<open>0x80\<close>, two bytes from there on.\<close>

definition byteToString :: "char \<Rightarrow> string" where
  "byteToString b =
     (let n = (of_char b :: nat)
      in if n < 128 then [b] else [char_of (192 + n div 64), char_of (128 + n mod 64)])"

text \<open>The fallback of \<open>Next\<close>; \<open>t.remaining[0]\<close> panics on an empty slice.\<close>

definition getUnknown :: "Tokenizer \<Rightarrow> error + (Token \<times> Tokenizer)" where
  "getUnknown t =
     (case remaining t of
        [] \<Rightarrow> Inl IndexOutOfRange
      | b # _ \<Rightarrow>
          (case advance 1 t of
             Inl e \<Rightarrow> Inl e
           | Inr t' \<Rightarrow> Inr (newToken t TypeUnknown (byteToString b), t')))"

text \<open>\<open>token = t.getX(); if token != nil { return token }\<close>, then the rest of \<open>Next\<close>.\<close>

definition orElse ::
  "(Tokenizer \<Rightarrow> error + (Token option \<times> Tokenizer)) \<Rightarrow>
   (Tokenizer \<Rightarrow> error + (Token \<times> Tokenizer)) \<Rightarrow> Tokenizer \<Rightarrow> error + (Token \<times> Tokenizer)" where
  "orElse recognizer rest t =
     (case recognizer t of
        Inl e \<Rightarrow> Inl e
      | Inr (Some token, t') \<Rightarrow> Inr (token, t')
      | Inr (None, t') \<Rightarrow> rest t')"

definition Next :: "Tokenizer \<Rightarrow> error + (Token \<times> Tokenizer)" where
  "Next =
     orElse getComment (\<lambda>t.
       if length (remaining t) = 0 then Inr (newToken t TypeEOF [], t)
       else orElse getWhitespace (orElse getKeyword (orElse getNewline (orElse getSymbol
              (orElse getIdentifier (orElse getStringConstant (orElse getNumberConstant
                 getUnknown)))))) t)"

text \<open>The caller's loop: \<open>n\<close> calls of \<open>Next\<close> in a row, with the tokens they return.\<close>

fun nextN :: "nat \<Rightarrow> Tokenizer \<Rightarrow> error + (Token list \<times> Tokenizer)" where
  "nextN 0 t = Inr ([], t)"
| "nextN (Suc n) t =
     (case Next t of
        Inl e \<Rightarrow> Inl e
      | Inr (tok, t') \<Rightarrow>
          (case nextN n t' of Inl e \<Rightarrow> Inl e | Inr (toks, t'') \<Rightarrow> Inr (tok # toks, t'')))"

section \<open>Notions used in the statements and proofs\<close>

text \<open>A pattern that cannot match the empty string, and one that can only match at the
  start of the text; both are decided on the syntax.\<close>

fun nonnull :: "regex \<Rightarrow> bool" where
  "nonnull BeginText = False"
| "nonnull WordBoundary = False"
| "nonnull (Lit l) = (l \<noteq> [])"
| "nonnull (Star cl) = False"
| "nonnull (Plus cl) = True"
| "nonnull (Quest r) = False"
| "nonnull (Alt r1 r2) = (nonnull r1 \<and> nonnull r2)"
| "nonnull (Cat r1 r2) = (nonnull r1 \<or> nonnull r2)"
| "nonnull (Group r) = nonnull r"

fun anchored :: "regex \<Rightarrow> bool" where
  "anchored BeginText = True"
| "anchored (Cat r1 r2) = anchored r1"
| "anchored (Group r) = anchored r"
| "anchored (Alt r1 r2) = (anchored r1 \<and> anchored r2)"
| "anchored _ = False"

text \<open>The tokenizer holds the patterns that \<open>NewTokenizer\<close> installs.\<close>

definition stdRegex :: "Tokenizer \<Rightarrow> bool" where
  "stdRegex t \<longleftrightarrow>
     KeywordRegex t = keywordRegex \<and> IdentifierRegex t = identifierRegex \<and>
     NumberRegex t = numberRegex \<and> CommentRegex t = commentRegex"

text \<open>The state after \<open>advance(n)\<close> with \<open>n\<close> in range.\<close>

definition consumed :: "nat \<Rightarrow> Tokenizer \<Rightarrow> Tokenizer" where
  "consumed n t = t\<lparr>column := column t + int n, remaining := drop n (remaining t)\<rparr>"

text \<open>One call of \<open>Next\<close> on a non-empty rest: the token carries the position before the
  call, it is not the end-of-input token, a String token comes from the string loop, and
  the cursor has moved by \<open>n > 0\<close> bytes (a Newline token starts the next line).\<close>

definition goodStep :: "Tokenizer \<Rightarrow> Token \<Rightarrow> Tokenizer \<Rightarrow> bool" where
  "goodStep t tok t' \<longleftrightarrow>
     Pos tok = \<lparr>Line = line t, Coloumn = column t\<rparr> \<and> Type tok \<noteq> TypeEOF \<and>
     (Type tok = TypeString \<longrightarrow>
        (\<exists>u i. remaining t = quoteChar # u \<and> stringLoop False 0 u = Some i)) \<and>
     (\<exists>n. 0 < n \<and> n \<le> length (remaining t) \<and>
          t' = (if Type tok = TypeNewline
                then t\<lparr>line := line t + 1, column := 1, remaining := drop 1 (remaining t)\<rparr>
                else consumed n t))"

text \<open>The alternatives of the keyword pattern, in its order, and the pattern
  \<open>l\<^sub>1|...|l\<^sub>n\<close> of a list of literals.\<close>

definition keywordList :: "string list" where
  "keywordList = [''if'', ''else'', ''end'', ''then'', ''goto'', ''and'', ''or'', ''not'']"

fun altOf :: "string list \<Rightarrow> regex" where
  "altOf [] = Lit []"
| "altOf [l] = Lit l"
| "altOf (l # l' # ls) = Alt (Lit l) (altOf (l' # ls))"

text \<open>
  The escaped flag in the words of the specification: before byte \<open>k\<close> of the text after
  the opening quote, the flag is set when the byte before was a backslash that was not
  itself escaped, and cleared otherwise (\<open>e\<close> is the flag at the start). The closing quote
  is the first quote that is not escaped.
\<close>

fun escapedFrom :: "bool \<Rightarrow> string \<Rightarrow> nat \<Rightarrow> bool" where
  "escapedFrom e s 0 = e"
| "escapedFrom e s (Suc k) = (s ! k = backslashChar \<and> \<not> escapedFrom e s k)"

definition closingQuote :: "string \<Rightarrow> nat \<Rightarrow> bool" where
  "closingQuote s k \<longleftrightarrow>
     k < length s \<and> s ! k = quoteChar \<and> \<not> escapedFrom False s k \<and>
     (\<forall>j \<in> set [0 ..< k]. s ! j = quoteChar \<longrightarrow> escapedFrom False s j)"

definition hasClosingQuote :: "string \<Rightarrow> bool" where
  "hasClosingQuote s = list_ex (closingQuote s) [0 ..< length s]"

text \<open>No quote in the text opens a string literal that the loop of \<open>getStringConstant\<close>
  would close.\<close>

definition noStringAhead :: "string \<Rightarrow> bool" where
  "noStringAhead r \<longleftrightarrow> (\<forall>a u. r = a @ quoteChar # u \<longrightarrow> stringLoop False 0 u = None)"

text \<open>The lexicographic order of positions, and how the position of a token relates to
  the position of the token before it.\<close>

definition posLe :: "Position \<Rightarrow> Position \<Rightarrow> bool" where
  "posLe p q \<longleftrightarrow> Line p < Line q \<or> (Line p = Line q \<and> Coloumn p \<le> Coloumn q)"

definition posStep :: "Token \<Rightarrow> Token \<Rightarrow> bool" where
  "posStep tok tok' \<longleftrightarrow>
     (if Type tok = TypeNewline
      then Line (Pos tok') = Line (Pos tok) + 1 \<and> Coloumn (Pos tok') = 1
      else Line (Pos tok') = Line (Pos tok) \<and> Coloumn (Pos tok) \<le> Coloumn (Pos tok'))"

section \<open>Properties of the matcher\<close>

lemma rmatch_span:
  "(b', a', g') \<in> set (rmatch r (b, a, g)) \<Longrightarrow> \<exists>w. b' = rev w @ b \<and> a = w @ a'"
proof (induction r arbitrary: b a g b' a' g')
  case (Lit l)
  then show ?case
    by (auto split: if_splits intro!: exI[of _ l]) (metis append_take_drop_id)
next
  case (Star cl)
  then obtain n where "b' = rev (take n a) @ b" "a' = drop n a" by auto
  then show ?case by (intro exI[of _ "take n a"]) simp
next
  case (Plus cl)
  then obtain n where "b' = rev (take n a) @ b" "a' = drop n a" by auto
  then show ?case by (intro exI[of _ "take n a"]) simp
next
  case (Quest r)
  then show ?case by auto
next
  case (Alt r1 r2)
  then show ?case by auto
next
  case (Cat r1 r2)
  from Cat.prems obtain b1 a1 g1 where
    m1: "(b1, a1, g1) \<in> set (rmatch r1 (b, a, g))" and
    m2: "(b', a', g') \<in> set (rmatch r2 (b1, a1, g1))"
    by auto
  from Cat.IH(1)[OF m1] obtain w1 where w1: "b1 = rev w1 @ b" "a = w1 @ a1" by blast
  from Cat.IH(2)[OF m2] obtain w2 where w2: "b' = rev w2 @ b1" "a1 = w2 @ a'" by blast
  show ?case using w1 w2 by (intro exI[of _ "w1 @ w2"]) simp
next
  case (Group r)
  then obtain g0 where "(b', a', g0) \<in> set (rmatch r (b, a, g))" by auto
  then show ?case using Group.IH by blast
qed (auto split: if_splits)

lemma rmatch_nonnull:
  "nonnull r \<Longrightarrow> (b', a', g') \<in> set (rmatch r (b, a, g)) \<Longrightarrow> length b < length b'"
proof (induction r arbitrary: b a g b' a' g')
  case (Plus cl)
  then obtain n where "b' = rev (take n a) @ b" "1 \<le> n" "n \<le> length (takeWhile (inClass cl) a)"
    by auto
  moreover have "length (takeWhile (inClass cl) a) \<le> length a"
    by (rule length_takeWhile_le)
  ultimately show ?case by simp
next
  case (Cat r1 r2)
  from Cat.prems obtain b1 a1 g1 where
    m1: "(b1, a1, g1) \<in> set (rmatch r1 (b, a, g))" and
    m2: "(b', a', g') \<in> set (rmatch r2 (b1, a1, g1))"
    by auto
  from rmatch_span[OF m1] have l1: "length b \<le> length b1" by auto
  from rmatch_span[OF m2] have l2: "length b1 \<le> length b'" by auto
  from Cat.prems(1) have "nonnull r1 \<or> nonnull r2" by simp
  then show ?case
  proof
    assume "nonnull r1"
    from Cat.IH(1)[OF this m1] l2 show ?thesis by simp
  next
    assume "nonnull r2"
    from Cat.IH(2)[OF this m2] l1 show ?thesis by simp
  qed
next
  case (Group r)
  then obtain g0 where "(b', a', g0) \<in> set (rmatch r (b, a, g))" by auto
  then show ?case using Group by auto
qed (auto split: if_splits)

lemma rmatch_anchored: "anchored r \<Longrightarrow> b \<noteq> [] \<Longrightarrow> rmatch r (b, a, g) = []"
  by (induction r arbitrary: b a g) auto

lemma findFrom_anchored: "anchored r \<Longrightarrow> b \<noteq> [] \<Longrightarrow> findFrom r b a = None"
  by (induction a arbitrary: b) (simp_all add: rmatch_anchored)

lemma FindSubmatch_anchored:
  "anchored r \<Longrightarrow>
   FindSubmatch r s =
     (case rmatch r ([], s, None) of [] \<Rightarrow> None | (b', a', g') # _ \<Rightarrow> Some (rev b', g'))"
  by (cases s) (auto simp: FindSubmatch_def findFrom_anchored split: list.splits)

lemma FindSubmatch_prefix:
  assumes "anchored r" and "FindSubmatch r s = Some (found, g)"
  shows "\<exists>rest. s = found @ rest"
proof -
  from assms obtain b' a' ms where m: "rmatch r ([], s, None) = (b', a', g) # ms" and f: "found = rev b'"
    by (auto simp: FindSubmatch_anchored split: list.splits)
  then have "(b', a', g) \<in> set (rmatch r ([], s, None))" by simp
  from rmatch_span[OF this] f show ?thesis by auto
qed

lemma FindSubmatch_nonempty:
  assumes "anchored r" and "nonnull r" and "FindSubmatch r s = Some (found, g)"
  shows "found \<noteq> []"
proof -
  from assms obtain b' a' ms where m: "rmatch r ([], s, None) = (b', a', g) # ms" and f: "found = rev b'"
    by (auto simp: FindSubmatch_anchored split: list.splits)
  then have "(b', a', g) \<in> set (rmatch r ([], s, None))" by simp
  from rmatch_nonnull[OF assms(2) this] f show ?thesis by auto
qed

lemma Find_prefix: "anchored r \<Longrightarrow> Find r s = Some found \<Longrightarrow> \<exists>rest. s = found @ rest"
  by (auto simp: Find_def dest: FindSubmatch_prefix)

lemma Find_nonempty: "anchored r \<Longrightarrow> nonnull r \<Longrightarrow> Find r s = Some found \<Longrightarrow> found \<noteq> []"
  by (auto simp: Find_def dest: FindSubmatch_nonempty)

lemma std_regexes:
  "anchored keywordRegex" "nonnull keywordRegex"
  "anchored identifierRegex" "nonnull identifierRegex"
  "anchored numberRegex" "nonnull numberRegex"
  "anchored commentRegex" "nonnull commentRegex"
  "anchored whitespaceRegex" "nonnull whitespaceRegex"
  by (simp_all add: keywordRegex_def identifierRegex_def numberRegex_def commentRegex_def whitespaceRegex_def)

lemma Find_identifierRegex_quote: "Find identifierRegex (quoteChar # u) = None"
  by (simp add: Find_def FindSubmatch_anchored std_regexes)
     (simp add: identifierRegex_def inRanges_def)
lemma Find_numberRegex_quote: "Find numberRegex (quoteChar # u) = None"
  by (simp add: Find_def FindSubmatch_anchored std_regexes)
     (simp add: numberRegex_def inRanges_def)
lemma Find_commentRegex_newline: "Find commentRegex (newlineChar # u) = None"
  by (simp add: Find_def FindSubmatch_anchored std_regexes)
     (simp add: commentRegex_def inRanges_def)
lemma Find_whitespaceRegex_newline: "Find whitespaceRegex (newlineChar # u) = None"
  by (simp add: Find_def FindSubmatch_anchored std_regexes)
     (simp add: whitespaceRegex_def inRanges_def)
lemma FindSubmatch_keywordRegex_newline: "FindSubmatch keywordRegex (newlineChar # u) = None"
  by (simp add: FindSubmatch_anchored std_regexes)
     (simp add: keywordRegex_def inRanges_def wordAt_def isWordChar_def)
lemma Find_commentRegex_Nil: "Find commentRegex [] = None"
  by (simp add: Find_def FindSubmatch_anchored std_regexes)
     (simp add: commentRegex_def inRanges_def)
section \<open>The recognizers in closed form\<close>

lemma advance_consumed: "n \<le> length (remaining t) \<Longrightarrow> advance (int n) t = Inr (consumed n t)"
  by (simp add: advance_def consumed_def)

lemma deferAdvance_consumed:
  "n \<le> length (remaining t) \<Longrightarrow> deferAdvance (int n) tok t = Inr (Some tok, consumed n t)"
  by (simp add: deferAdvance_def advance_consumed)

lemma Find_length: "anchored r \<Longrightarrow> Find r s = Some found \<Longrightarrow> length found \<le> length s"
  by (auto dest: Find_prefix)

lemma deferAdvance_Find:
  "anchored r \<Longrightarrow> Find r (remaining t) = Some found \<Longrightarrow>
   deferAdvance (int (length found)) tok t = Inr (Some tok, consumed (length found) t)"
  by (rule deferAdvance_consumed) (rule Find_length)

lemma getComment_eq:
  "CommentRegex t = commentRegex \<Longrightarrow>
   getComment t =
     (case Find commentRegex (remaining t) of
        None \<Rightarrow> Inr (None, t)
      | Some found \<Rightarrow> Inr (Some (newToken t TypeComment found), consumed (length found) t))"
  by (auto simp: getComment_def std_regexes split: option.splits intro: deferAdvance_Find[of commentRegex])

lemma getWhitespace_eq:
  "getWhitespace t =
     (case Find whitespaceRegex (remaining t) of
        None \<Rightarrow> Inr (None, t)
      | Some found \<Rightarrow> Inr (Some (newToken t TypeWhitespace found), consumed (length found) t))"
  by (auto simp: getWhitespace_def std_regexes split: option.splits intro: deferAdvance_Find[of whitespaceRegex])

lemma getIdentifier_eq:
  "IdentifierRegex t = identifierRegex \<Longrightarrow>
   getIdentifier t =
     (case Find identifierRegex (remaining t) of
        None \<Rightarrow> Inr (None, t)
      | Some found \<Rightarrow> Inr (Some (newToken t TypeID found), consumed (length found) t))"
  by (auto simp: getIdentifier_def std_regexes split: option.splits intro: deferAdvance_Find[of identifierRegex])

lemma getNumberConstant_eq:
  "NumberRegex t = numberRegex \<Longrightarrow>
   getNumberConstant t =
     (case Find numberRegex (remaining t) of
        None \<Rightarrow> Inr (None, t)
      | Some found \<Rightarrow> Inr (Some (newToken t TypeNumber found), consumed (length found) t))"
  by (auto simp: getNumberConstant_def std_regexes split: option.splits intro: deferAdvance_Find[of numberRegex])

lemma getKeyword_eq:
  "KeywordRegex t = keywordRegex \<Longrightarrow>
   getKeyword t =
     (case FindSubmatch keywordRegex (remaining t) of
        None \<Rightarrow> Inr (None, t)
      | Some (found0, found1) \<Rightarrow>
          Inr (Some (newToken t TypeKeyword (case found1 of None \<Rightarrow> [] | Some s \<Rightarrow> s)),
               consumed (length found0) t))"
proof (cases "FindSubmatch keywordRegex (remaining t)")
  case None
  then show "KeywordRegex t = keywordRegex \<Longrightarrow> ?thesis" by (simp add: getKeyword_def)
next
  case (Some p)
  obtain f0 f1 where p: "p = (f0, f1)" by (cases p)
  from Some p FindSubmatch_prefix[of keywordRegex "remaining t" f0 f1]
  have "length f0 \<le> length (remaining t)" by (auto simp: std_regexes)
  with Some p show "KeywordRegex t = keywordRegex \<Longrightarrow> ?thesis"
    by (simp add: getKeyword_def deferAdvance_consumed)
qed

lemma getNewline_eq:
  "getNewline t =
     (case remaining t of
        [] \<Rightarrow> Inr (None, t)
      | c # rest \<Rightarrow>
          if c = newlineChar
          then Inr (Some (newToken t TypeNewline []),
                    t\<lparr>line := line t + 1, column := 1, remaining := rest\<rparr>)
          else Inr (None, t))"
  by (simp add: getNewline_def advance_def split: list.splits)

lemma getSymbolLoop_eq:
  "getSymbolLoop syms t =
     (case find (HasPrefix (remaining t)) syms of
        None \<Rightarrow> Inr (None, t)
      | Some symbol \<Rightarrow> Inr (Some (newToken t TypeSymbol symbol), consumed (length symbol) t))"
  by (induction syms) (simp_all add: deferAdvance_consumed HasPrefix_def)

lemma stringLoop_bounds:
  "stringLoop e i s = Some k \<Longrightarrow> i \<le> k \<and> k < i + int (length s)"
proof (induction s arbitrary: e i)
  case Nil
  then show ?case by simp
next
  case (Cons b bs)
  show ?case
  proof (cases "e \<or> \<not> (b = quoteChar \<and> b \<noteq> backslashChar)")
    case True
    with Cons.prems obtain e' where "stringLoop e' (i + 1) bs = Some k"
      by (auto simp: Let_def split: if_splits)
    from Cons.IH[OF this] show ?thesis by simp
  next
    case False
    with Cons.prems show ?thesis by (simp add: Let_def)
  qed
qed

lemma getStringConstant_eq:
  "getStringConstant t =
     (case remaining t of
        [] \<Rightarrow> Inr (None, t)
      | c # u \<Rightarrow>
          if c \<noteq> quoteChar then Inr (None, t)
          else (case stringLoop False 0 u of
                  None \<Rightarrow> Inr (None, t)
                | Some i \<Rightarrow>
                    Inr (Some (newToken t TypeString (take (nat i) u)),
                         consumed (nat i + 2) t)))"
proof (cases "remaining t")
  case Nil
  then show ?thesis by (simp add: getStringConstant_def)
next
  case (Cons c u)
  show ?thesis
  proof (cases "c = quoteChar")
    case False
    with Cons show ?thesis by (simp add: getStringConstant_def)
  next
    case True
    show ?thesis
    proof (cases "stringLoop False 0 u")
      case None
      with Cons True show ?thesis
        by (cases u) (simp_all add: getStringConstant_def)
    next
      case (Some i)
      from stringLoop_bounds[OF Some] have b: "0 \<le> i" "i < int (length u)" by simp_all
      then have n: "nat i + 2 \<le> length (remaining t)" using Cons by simp
      have i2: "i + 2 = int (nat i + 2)" using b by simp
      have u: "u \<noteq> []" using b by auto
      have sl: "slice 1 (i + 1) (remaining t) = Inr (take (nat i) u)"
        using b Cons by (simp add: slice_def nat_add_distrib)
      have da: "deferAdvance (2 + i) tok t = Inr (Some tok, consumed (nat i + 2) t)" for tok
        using deferAdvance_consumed[OF n, of tok] b by (simp add: add.commute)
      have da': "deferAdvance (i + 2) tok t = Inr (Some tok, consumed (nat i + 2) t)" for tok
        using da[of tok] by (simp add: add.commute)
      show ?thesis
        using Cons True Some u sl b
        by (simp add: getStringConstant_def da da')
    qed
  qed
qed

section \<open>One call of \<open>Next\<close>\<close>

lemma orElse_None: "g t = Inr (None, t) \<Longrightarrow> orElse g k t = k t"
  by (simp add: orElse_def)

lemma orElse_Some: "g t = Inr (Some tok, t') \<Longrightarrow> orElse g k t = Inr (tok, t')"
  by (simp add: orElse_def)

lemma orElse_good:
  assumes "g t = Inr (None, t) \<or> (\<exists>tok t'. g t = Inr (Some tok, t') \<and> goodStep t tok t')"
    and "\<exists>tok t'. k t = Inr (tok, t') \<and> goodStep t tok t'"
  shows "\<exists>tok t'. orElse g k t = Inr (tok, t') \<and> goodStep t tok t'"
  using assms by (auto simp: orElse_def)

lemma goodStep_consumed:
  assumes "0 < n" "n \<le> length (remaining t)" "typ \<noteq> TypeEOF" "typ \<noteq> TypeString"
    "typ \<noteq> TypeNewline"
  shows "goodStep t (newToken t typ val) (consumed n t)"
  using assms by (auto simp: goodStep_def newToken_def)

lemma Find_good:
  assumes "anchored r" "nonnull r" "Find r (remaining t) = Some found"
    "typ \<noteq> TypeEOF" "typ \<noteq> TypeString" "typ \<noteq> TypeNewline"
  shows "goodStep t (newToken t typ found) (consumed (length found) t)"
proof (rule goodStep_consumed)
  show "0 < length found" using Find_nonempty[OF assms(1,2,3)] by simp
  show "length found \<le> length (remaining t)" using Find_length[OF assms(1,3)] .
qed (fact assms)+

lemma getComment_good:
  assumes "stdRegex t"
  shows "getComment t = Inr (None, t) \<or> (\<exists>tok t'. getComment t = Inr (Some tok, t') \<and> goodStep t tok t')"
proof (cases "Find commentRegex (remaining t)")
  case None
  with assms show ?thesis by (simp add: getComment_eq stdRegex_def)
next
  case (Some found)
  have "goodStep t (newToken t TypeComment found) (consumed (length found) t)"
    by (rule Find_good[OF _ _ Some]) (simp_all add: std_regexes)
  with Some assms show ?thesis by (simp add: getComment_eq stdRegex_def)
qed

lemma getWhitespace_good:
  "getWhitespace t = Inr (None, t) \<or> (\<exists>tok t'. getWhitespace t = Inr (Some tok, t') \<and> goodStep t tok t')"
proof (cases "Find whitespaceRegex (remaining t)")
  case None
  then show ?thesis by (simp add: getWhitespace_eq)
next
  case (Some found)
  have "goodStep t (newToken t TypeWhitespace found) (consumed (length found) t)"
    by (rule Find_good[OF _ _ Some]) (simp_all add: std_regexes)
  with Some show ?thesis by (simp add: getWhitespace_eq)
qed

lemma getIdentifier_good:
  assumes "stdRegex t"
  shows "getIdentifier t = Inr (None, t) \<or> (\<exists>tok t'. getIdentifier t = Inr (Some tok, t') \<and> goodStep t tok t')"
proof (cases "Find identifierRegex (remaining t)")
  case None
  with assms show ?thesis by (simp add: getIdentifier_eq stdRegex_def)
next
  case (Some found)
  have "goodStep t (newToken t TypeID found) (consumed (length found) t)"
    by (rule Find_good[OF _ _ Some]) (simp_all add: std_regexes)
  with Some assms show ?thesis by (simp add: getIdentifier_eq stdRegex_def)
qed

lemma getNumberConstant_good:
  assumes "stdRegex t"
  shows "getNumberConstant t = Inr (None, t) \<or> (\<exists>tok t'. getNumberConstant t = Inr (Some tok, t') \<and> goodStep t tok t')"
proof (cases "Find numberRegex (remaining t)")
  case None
  with assms show ?thesis by (simp add: getNumberConstant_eq stdRegex_def)
next
  case (Some found)
  have "goodStep t (newToken t TypeNumber found) (consumed (length found) t)"
    by (rule Find_good[OF _ _ Some]) (simp_all add: std_regexes)
  with Some assms show ?thesis by (simp add: getNumberConstant_eq stdRegex_def)
qed

lemma getKeyword_good:
  assumes "stdRegex t"
  shows "getKeyword t = Inr (None, t) \<or> (\<exists>tok t'. getKeyword t = Inr (Some tok, t') \<and> goodStep t tok t')"
proof (cases "FindSubmatch keywordRegex (remaining t)")
  case None
  with assms show ?thesis by (simp add: getKeyword_eq stdRegex_def)
next
  case (Some p)
  obtain f0 f1 where p: "p = (f0, f1)" by (cases p)
  have "f0 \<noteq> []"
    using FindSubmatch_nonempty[of keywordRegex "remaining t" f0 f1] Some p
    by (simp add: std_regexes)
  moreover have "length f0 \<le> length (remaining t)"
    using FindSubmatch_prefix[of keywordRegex "remaining t" f0 f1] Some p
    by (auto simp: std_regexes)
  ultimately have "goodStep t (newToken t TypeKeyword (case f1 of None \<Rightarrow> [] | Some s \<Rightarrow> s))
      (consumed (length f0) t)"
    by (intro goodStep_consumed) simp_all
  with Some p assms show ?thesis by (simp add: getKeyword_eq stdRegex_def)
qed

lemma getNewline_good:
  "getNewline t = Inr (None, t) \<or> (\<exists>tok t'. getNewline t = Inr (Some tok, t') \<and> goodStep t tok t')"
proof (cases "remaining t")
  case Nil
  then show ?thesis by (simp add: getNewline_eq)
next
  case (Cons c rest)
  then show ?thesis
    by (auto simp: getNewline_eq goodStep_def newToken_def intro!: exI[of _ 1])
qed

lemma find_Some_mem: "find P xs = Some x \<Longrightarrow> x \<in> set xs \<and> P x"
  by (induction xs) (auto split: if_splits)

lemma getSymbol_good:
  "getSymbol t = Inr (None, t) \<or> (\<exists>tok t'. getSymbol t = Inr (Some tok, t') \<and> goodStep t tok t')"
proof (cases "find (HasPrefix (remaining t)) symbols")
  case None
  then show ?thesis by (simp add: getSymbol_def getSymbolLoop_eq)
next
  case (Some symbol)
  from find_Some_mem[OF Some] have m: "symbol \<in> set symbols" and h: "HasPrefix (remaining t) symbol"
    by simp_all
  from m have "symbol \<noteq> []" by (auto simp: symbols_def)
  with h have "goodStep t (newToken t TypeSymbol symbol) (consumed (length symbol) t)"
    by (intro goodStep_consumed) (simp_all add: HasPrefix_def)
  with Some show ?thesis by (simp add: getSymbol_def getSymbolLoop_eq)
qed

lemma getStringConstant_good:
  "getStringConstant t = Inr (None, t) \<or>
   (\<exists>tok t'. getStringConstant t = Inr (Some tok, t') \<and> goodStep t tok t')"
proof (cases "remaining t")
  case Nil
  then show ?thesis by (simp add: getStringConstant_eq)
next
  case (Cons c u)
  show ?thesis
  proof (cases "c = quoteChar")
    case False
    with Cons show ?thesis by (simp add: getStringConstant_eq)
  next
    case True
    show ?thesis
    proof (cases "stringLoop False 0 u")
      case None
      with Cons True show ?thesis by (simp add: getStringConstant_eq)
    next
      case (Some i)
      from stringLoop_bounds[OF Some] have b: "0 \<le> i" "i < int (length u)" by simp_all
      have "goodStep t (newToken t TypeString (take (nat i) u)) (consumed (nat i + 2) t)"
        using Cons True Some b
        by (auto simp: goodStep_def newToken_def intro!: exI[of _ "nat i + 2"])
      with Cons True Some show ?thesis by (simp add: getStringConstant_eq)
    qed
  qed
qed

lemma getUnknown_good:
  assumes "remaining t \<noteq> []"
  shows "\<exists>tok t'. getUnknown t = Inr (tok, t') \<and> goodStep t tok t'"
proof -
  from assms obtain b rest where r: "remaining t = b # rest" by (cases "remaining t") auto
  have "advance 1 t = Inr (consumed 1 t)"
    using advance_consumed[of 1 t] r by simp
  with r have "getUnknown t = Inr (newToken t TypeUnknown (byteToString b), consumed 1 t)"
    by (simp add: getUnknown_def)
  moreover have "goodStep t (newToken t TypeUnknown (byteToString b)) (consumed 1 t)"
    using r by (intro goodStep_consumed) simp_all
  ultimately show ?thesis by blast
qed

lemma Next_nonempty:
  assumes std: "stdRegex t" and ne: "remaining t \<noteq> []"
  shows "\<exists>tok t'. Next t = Inr (tok, t') \<and> goodStep t tok t'"
proof -
  let ?k = "orElse getWhitespace (orElse getKeyword (orElse getNewline (orElse getSymbol
              (orElse getIdentifier (orElse getStringConstant (orElse getNumberConstant
                 getUnknown))))))"
  have "\<exists>tok t'. ?k t = Inr (tok, t') \<and> goodStep t tok t'"
    by (intro orElse_good getWhitespace_good getKeyword_good[OF std] getNewline_good
          getSymbol_good getIdentifier_good[OF std] getStringConstant_good
          getNumberConstant_good[OF std] getUnknown_good[OF ne])
  then have "\<exists>tok t'. (\<lambda>t. if length (remaining t) = 0 then Inr (newToken t TypeEOF [], t)
                            else ?k t) t = Inr (tok, t') \<and> goodStep t tok t'"
    using ne by simp
  with getComment_good[OF std] show ?thesis
    unfolding Next_def by (rule orElse_good)
qed

lemma Next_empty:
  assumes "stdRegex t" and "remaining t = []"
  shows "Next t = Inr (newToken t TypeEOF [], t)"
  using assms
  by (simp add: Next_def orElse_def getComment_eq stdRegex_def Find_commentRegex_Nil)

lemma goodStep_stdRegex: "goodStep t tok t' \<Longrightarrow> stdRegex t \<Longrightarrow> stdRegex t'"
  by (auto simp: goodStep_def stdRegex_def consumed_def split: if_splits)

lemma goodStep_shorter: "goodStep t tok t' \<Longrightarrow> length (remaining t') < length (remaining t)"
  by (auto simp: goodStep_def consumed_def split: if_splits)

lemma stdRegex_Load: "stdRegex (Load U s NewTokenizer)"
  by (simp add: stdRegex_def Load_def NewTokenizer_def)

lemma Next_pos:
  assumes "stdRegex t"
  shows "\<exists>tok t'. Next t = Inr (tok, t') \<and> Pos tok = \<lparr>Line = line t, Coloumn = column t\<rparr>"
proof (cases "remaining t = []")
  case True
  from Next_empty[OF assms True] show ?thesis by (simp add: newToken_def)
next
  case False
  from Next_nonempty[OF assms False] show ?thesis by (auto simp: goodStep_def)
qed

lemma Next_newline:
  assumes "stdRegex t" and "remaining t = newlineChar # rest"
  shows "Next t = Inr (newToken t TypeNewline [],
                       t\<lparr>line := line t + 1, column := 1, remaining := rest\<rparr>)"
  using assms
  by (simp add: Next_def orElse_def getComment_eq getWhitespace_eq getKeyword_eq getNewline_eq
      stdRegex_def Find_commentRegex_newline Find_whitespaceRegex_newline
      FindSubmatch_keywordRegex_newline)

lemma symbols_order:
  "sorted_wrt (\<lambda>s s'. \<not> (length s < length s' \<and> HasPrefix s' s)) symbols"
  by (simp add: symbols_def HasPrefix_def)

lemma Load_id: "list_all (\<lambda>c. (of_char c :: nat) < 128) s \<Longrightarrow> Load U s t = Load id s t"
  by (simp add: Load_def ToLower_def)

section \<open>The keyword pattern\<close>

lemma keywordRegex_altOf:
  "keywordRegex =
     Cat BeginText (Cat WordBoundary (Cat (Group (altOf keywordList)) WordBoundary))"
  by (simp add: keywordRegex_def keywordList_def)

lemma rmatch_altOf:
  "ls \<noteq> [] \<Longrightarrow>
   rmatch (altOf ls) (b, a, g) =
     map (\<lambda>l. (rev l @ b, drop (length l) a, g)) (filter (\<lambda>l. take (length l) a = l) ls)"
  by (induction ls rule: altOf.induct) simp_all

lemma rmatch_keywordRegex:
  "rmatch keywordRegex ([], s, None) =
     (if wordAt s
      then map (\<lambda>kw. (rev kw, drop (length kw) s, Some kw))
             (filter (\<lambda>kw. wordAt (rev kw) \<noteq> wordAt (drop (length kw) s))
                (filter (\<lambda>kw. take (length kw) s = kw) keywordList))
      else [])"
proof -
  have ne: "keywordList \<noteq> []" by (simp add: keywordList_def)
  have w: "wordAt [] = False" by (simp add: wordAt_def)
  have g: "rmatch (Group (altOf keywordList)) ([], s, None) =
        map (\<lambda>kw. (rev kw, drop (length kw) s, Some kw))
          (filter (\<lambda>kw. take (length kw) s = kw) keywordList)"
    by (simp add: rmatch_altOf[OF ne] comp_def)
  have wb: "concat (map (rmatch WordBoundary)
              (map (\<lambda>kw. (rev kw, drop (length kw) s, Some kw)) xs)) =
        map (\<lambda>kw. (rev kw, drop (length kw) s, Some kw))
          (filter (\<lambda>kw. wordAt (rev kw) \<noteq> wordAt (drop (length kw) s)) xs)" for xs
    by (induction xs) simp_all
  have c: "rmatch (Cat (Group (altOf keywordList)) WordBoundary) ([], s, None) =
        map (\<lambda>kw. (rev kw, drop (length kw) s, Some kw))
             (filter (\<lambda>kw. wordAt (rev kw) \<noteq> wordAt (drop (length kw) s))
                (filter (\<lambda>kw. take (length kw) s = kw) keywordList))"
    by (simp only: rmatch.simps(8) g wb)
  have "rmatch keywordRegex ([], s, None) =
        (if wordAt [] \<noteq> wordAt s
         then rmatch (Cat (Group (altOf keywordList)) WordBoundary) ([], s, None) else [])"
    by (simp add: keywordRegex_altOf del: rmatch.simps(8,9)
          add: rmatch.simps(8)[of BeginText] rmatch.simps(8)[of WordBoundary])
  then show ?thesis by (simp only: c w) simp
qed

lemma wordAt_keyword: "kw \<in> set keywordList \<Longrightarrow> wordAt (rev kw) \<and> wordAt (kw @ rest)"
  by (auto simp: keywordList_def wordAt_def isWordChar_def inRanges_def)

lemma FindSubmatch_keyword_only:
  assumes "FindSubmatch keywordRegex s = Some (f0, f1)"
  shows "f0 \<in> set keywordList \<and> f1 = Some f0 \<and> wordAt s \<and>
         (\<exists>rest. s = f0 @ rest \<and> \<not> wordAt rest)"
proof -
  let ?L = "filter (\<lambda>kw. wordAt (rev kw) \<noteq> wordAt (drop (length kw) s))
                (filter (\<lambda>kw. take (length kw) s = kw) keywordList)"
  from assms have w: "wordAt s" and "?L \<noteq> []"
    by (auto simp: FindSubmatch_anchored std_regexes rmatch_keywordRegex
        split: list.splits if_splits)
  then obtain kw ks where L: "?L = kw # ks" by (cases ?L) auto
  with assms w have f: "f0 = kw" "f1 = Some kw"
    by (auto simp: FindSubmatch_anchored std_regexes rmatch_keywordRegex)
  have "kw \<in> set ?L" using L by simp
  then have k: "kw \<in> set keywordList" "take (length kw) s = kw"
    "wordAt (rev kw) \<noteq> wordAt (drop (length kw) s)" by auto
  from k(1,3) wordAt_keyword[OF k(1)] have "\<not> wordAt (drop (length kw) s)" by simp
  moreover from k(2) have "s = kw @ drop (length kw) s" by (metis append_take_drop_id)
  ultimately show ?thesis using f k(1) w by blast
qed

lemma FindSubmatch_keyword_if:
  assumes "kw \<in> set keywordList" and "\<not> wordAt rest"
  shows "FindSubmatch keywordRegex (kw @ rest) = Some (kw, Some kw)"
proof -
  from assms(1) have "kw = ''if'' \<or> kw = ''else'' \<or> kw = ''end'' \<or> kw = ''then'' \<or>
      kw = ''goto'' \<or> kw = ''and'' \<or> kw = ''or'' \<or> kw = ''not''"
    by (simp add: keywordList_def)
  then have
    "filter (\<lambda>k. take (length k) (kw @ rest) = k) keywordList = [kw]"
    by (elim disjE) (simp_all add: keywordList_def)
  with assms wordAt_keyword[OF assms(1), of rest] show ?thesis
    by (simp add: FindSubmatch_anchored std_regexes rmatch_keywordRegex)
qed

section \<open>Recognizers that a first byte rules out\<close>

lemma inRanges_Nil: "inRanges [] c = False"
  by (simp add: inRanges_def)

lemma inRanges_point: "inRanges ((a, a) # rs) c = (c = a \<or> inRanges rs c)"
  by (auto simp: inRanges_def)

lemma Find_commentRegex_first:
  "c \<noteq> CHR '' '' \<Longrightarrow> c \<noteq> tabChar \<Longrightarrow> c \<noteq> CHR ''/'' \<Longrightarrow> Find commentRegex (c # u) = None"
  by (simp add: Find_def FindSubmatch_anchored std_regexes)
     (simp add: commentRegex_def inRanges_point inRanges_Nil)

lemma Find_whitespaceRegex_first:
  "c \<noteq> CHR '' '' \<Longrightarrow> c \<noteq> tabChar \<Longrightarrow> c \<noteq> returnChar \<Longrightarrow>
   Find whitespaceRegex (c # u) = None"
  by (simp add: Find_def FindSubmatch_anchored std_regexes)
     (simp add: whitespaceRegex_def inRanges_point inRanges_Nil)

lemma FindSubmatch_keywordRegex_first:
  "\<not> isWordChar c \<Longrightarrow> FindSubmatch keywordRegex (c # u) = None"
  by (simp add: FindSubmatch_anchored std_regexes rmatch_keywordRegex wordAt_def)

lemma getSymbol_first:
  "remaining t = c # u \<Longrightarrow> c \<notin> set ''+->=<!*/%^,()'' \<Longrightarrow> getSymbol t = Inr (None, t)"
  by (simp add: getSymbol_def symbols_def HasPrefix_def)

lemma Next_skip5:
  assumes "stdRegex t" and "remaining t = c # u"
    and "c \<notin> set ''+->=<!*/%^,()''" and "\<not> isWordChar c"
    and "c \<noteq> CHR '' ''" "c \<noteq> tabChar" "c \<noteq> returnChar" "c \<noteq> newlineChar"
  shows "Next t = orElse getIdentifier (orElse getStringConstant (orElse getNumberConstant
                    getUnknown)) t"
proof -
  have "c \<noteq> CHR ''/''" using assms(3) by auto
  then have 1: "getComment t = Inr (None, t)"
    using assms by (simp add: getComment_eq stdRegex_def Find_commentRegex_first)
  have 2: "getWhitespace t = Inr (None, t)"
    using assms by (simp add: getWhitespace_eq Find_whitespaceRegex_first)
  have 3: "getKeyword t = Inr (None, t)"
    using assms by (simp add: getKeyword_eq stdRegex_def FindSubmatch_keywordRegex_first)
  have 4: "getNewline t = Inr (None, t)"
    using assms by (simp add: getNewline_eq)
  have 5: "getSymbol t = Inr (None, t)"
    using assms(2,3) by (rule getSymbol_first)
  show ?thesis
    using assms(2) by (simp add: Next_def orElse_None[of getComment, OF 1] orElse_None[of getWhitespace, OF 2]
        orElse_None[of getKeyword, OF 3] orElse_None[of getNewline, OF 4] orElse_None[of getSymbol, OF 5])
qed

lemma Next_quote:
  assumes "stdRegex t" and "remaining t = quoteChar # u"
  shows "Next t =
     (case stringLoop False 0 u of
        None \<Rightarrow> Inr (newToken t TypeUnknown [quoteChar], consumed 1 t)
      | Some i \<Rightarrow> Inr (newToken t TypeString (take (nat i) u), consumed (nat i + 2) t))"
proof -
  have n: "Next t = orElse getIdentifier (orElse getStringConstant (orElse getNumberConstant
                    getUnknown)) t"
    by (rule Next_skip5[OF assms]) (simp_all add: isWordChar_def inRanges_def)
  have 1: "getIdentifier t = Inr (None, t)"
    using assms by (simp add: getIdentifier_eq stdRegex_def Find_identifierRegex_quote)
  have 2: "getNumberConstant t = Inr (None, t)"
    using assms by (simp add: getNumberConstant_eq stdRegex_def Find_numberRegex_quote)
  have a: "advance 1 t = Inr (consumed 1 t)"
    using advance_consumed[of 1 t] assms(2) by simp
  have 3: "getUnknown t = Inr (newToken t TypeUnknown [quoteChar], consumed 1 t)"
    using assms(2) a by (simp add: getUnknown_def byteToString_def)
  show ?thesis
    unfolding n orElse_None[of getIdentifier, OF 1]
    by (cases "stringLoop False 0 u")
       (simp_all add: orElse_def getStringConstant_eq assms(2) 2 3)
qed

lemma Find_identifier_colon_keyword:
  "list_all (\<lambda>kw. Find identifierRegex (CHR '':'' # kw) = Some (CHR '':'' # kw)) keywordList"
  by code_simp

lemma Next_colon_keyword:
  assumes "stdRegex t" and "kw \<in> set keywordList" and "remaining t = CHR '':'' # kw"
  shows "Next t = Inr (newToken t TypeID (CHR '':'' # kw), consumed (Suc (length kw)) t)"
proof -
  have n: "Next t = orElse getIdentifier (orElse getStringConstant (orElse getNumberConstant
                    getUnknown)) t"
    by (rule Next_skip5[OF assms(1,3)]) (simp_all add: isWordChar_def inRanges_def)
  from Find_identifier_colon_keyword assms(2)
  have "Find identifierRegex (CHR '':'' # kw) = Some (CHR '':'' # kw)"
    by (simp add: list_all_iff)
  then have "getIdentifier t = Inr (Some (newToken t TypeID (CHR '':'' # kw)), consumed (Suc (length kw)) t)"
    using assms by (simp add: getIdentifier_eq stdRegex_def)
  then show ?thesis unfolding n by (rule orElse_Some)
qed

section \<open>The loop of \<open>getStringConstant\<close>\<close>

lemma escapedFrom_Cons:
  "escapedFrom e (b # bs) (Suc k) = escapedFrom (b = backslashChar \<and> \<not> e) bs k"
  by (induction k) simp_all

lemma stringLoop_found:
  assumes "k < length s" and "s ! k = quoteChar" and "\<not> escapedFrom e s k"
    and "\<forall>j<k. s ! j = quoteChar \<longrightarrow> escapedFrom e s j"
  shows "stringLoop e i s = Some (i + int k)"
  using assms
proof (induction s arbitrary: e i k)
  case Nil
  then show ?case by simp
next
  case (Cons b bs)
  show ?case
  proof (cases k)
    case 0
    with Cons.prems show ?thesis by simp
  next
    case (Suc k')
    let ?e' = "b = backslashChar \<and> \<not> e"
    from Cons.prems(4) Suc have b0: "b = quoteChar \<longrightarrow> e" by force
    have "\<forall>j<k'. bs ! j = quoteChar \<longrightarrow> escapedFrom ?e' bs j"
    proof (intro allI impI)
      fix j assume "j < k'" "bs ! j = quoteChar"
      with Cons.prems(4) Suc have "escapedFrom e (b # bs) (Suc j)" by force
      then show "escapedFrom ?e' bs j" by (simp only: escapedFrom_Cons)
    qed
    moreover have "\<not> escapedFrom ?e' bs k'"
      using Cons.prems(3) Suc by (simp only: escapedFrom_Cons) simp
    moreover have "k' < length bs" "bs ! k' = quoteChar" using Cons.prems(1,2) Suc by simp_all
    ultimately have ih: "stringLoop ?e' (i + 1) bs = Some (i + 1 + int k')"
      by (intro Cons.IH)
    show ?thesis
    proof (cases e)
      case True
      with ih Suc show ?thesis by simp
    next
      case False
      with b0 have "b \<noteq> quoteChar" by simp
      with False ih Suc show ?thesis by (simp add: Let_def)
    qed
  qed
qed

lemma stringLoop_Some:
  assumes "stringLoop e i s = Some r"
  shows "\<exists>k. r = i + int k \<and> k < length s \<and> s ! k = quoteChar \<and> \<not> escapedFrom e s k \<and>
             (\<forall>j<k. s ! j = quoteChar \<longrightarrow> escapedFrom e s j)"
  using assms
proof (induction s arbitrary: e i)
  case Nil
  then show ?case by simp
next
  case (Cons b bs)
  let ?e' = "b = backslashChar \<and> \<not> e"
  show ?case
  proof (cases "\<not> e \<and> b = quoteChar")
    case True
    with Cons.prems have "r = i" by (simp add: Let_def)
    with True show ?thesis by (intro exI[of _ 0]) simp
  next
    case False
    with Cons.prems have "stringLoop ?e' (i + 1) bs = Some r"
      by (auto simp: Let_def split: if_splits)
    from Cons.IH[OF this] obtain k where k: "r = i + 1 + int k" "k < length bs"
      "bs ! k = quoteChar" "\<not> escapedFrom ?e' bs k"
      "\<forall>j<k. bs ! j = quoteChar \<longrightarrow> escapedFrom ?e' bs j" by blast
    have "\<forall>j<Suc k. (b # bs) ! j = quoteChar \<longrightarrow> escapedFrom e (b # bs) j"
    proof (intro allI impI)
      fix j assume j: "j < Suc k" "(b # bs) ! j = quoteChar"
      show "escapedFrom e (b # bs) j"
      proof (cases j)
        case 0
        with j False show ?thesis by auto
      next
        case (Suc j')
        with j k(5) have "escapedFrom ?e' bs j'" by simp
        with Suc show ?thesis by (simp only: escapedFrom_Cons)
      qed
    qed
    moreover have "\<not> escapedFrom e (b # bs) (Suc k)"
      using k(4) by (simp only: escapedFrom_Cons) simp
    ultimately show ?thesis using k(1,2,3)
      by (intro exI[of _ "Suc k"]) simp
  qed
qed

lemma closingQuote_stringLoop:
  "closingQuote s k \<Longrightarrow> stringLoop False 0 s = Some (int k)"
  using stringLoop_found[of k s False 0] by (simp add: closingQuote_def)

lemma stringLoop_closingQuote:
  assumes "stringLoop False 0 s = Some r"
  shows "0 \<le> r \<and> closingQuote s (nat r)"
proof -
  from stringLoop_Some[OF assms] obtain k where "r = int k" "k < length s" "s ! k = quoteChar"
    "\<not> escapedFrom False s k" "\<forall>j<k. s ! j = quoteChar \<longrightarrow> escapedFrom False s j" by auto
  then show ?thesis by (simp add: closingQuote_def)
qed

lemma no_closingQuote_stringLoop:
  assumes "\<not> hasClosingQuote s"
  shows "stringLoop False 0 s = None"
proof (cases "stringLoop False 0 s")
  case (Some r)
  from stringLoop_closingQuote[OF Some] have "closingQuote s (nat r)" by simp
  moreover then have "nat r < length s" by (simp add: closingQuote_def)
  ultimately have "hasClosingQuote s" by (auto simp: hasClosingQuote_def list_ex_iff)
  with assms show ?thesis by simp
qed simp

lemma stringLoop_None_index:
  "stringLoop e i s = None \<Longrightarrow> stringLoop e j s = None"
proof (induction s arbitrary: e i j)
  case Nil
  show ?case by simp
next
  case (Cons b bs)
  show ?case
  proof (cases "\<not> e \<and> b = quoteChar")
    case True
    with Cons.prems show ?thesis by (simp add: Let_def)
  next
    case False
    with Cons.prems have "stringLoop (b = backslashChar \<and> \<not> e) (i + 1) bs = None"
      by (auto simp: Let_def split: if_splits)
    from Cons.IH[OF this, of "j + 1"] False show ?thesis by (auto simp: Let_def)
  qed
qed

lemma stringLoop_None_later:
  "stringLoop e i (a @ quoteChar # u) = None \<Longrightarrow> stringLoop False 0 u = None"
proof (induction a arbitrary: e i)
  case Nil
  then have "e" by (auto simp: Let_def split: if_splits)
  with Nil have "stringLoop False (i + 1) u = None" by simp
  then show ?case by (rule stringLoop_None_index)
next
  case (Cons b bs)
  have "\<not> (\<not> e \<and> b = quoteChar)" using Cons.prems by (auto simp: Let_def)
  with Cons.prems have "stringLoop (b = backslashChar \<and> \<not> e) (i + 1) (bs @ quoteChar # u) = None"
    by (auto simp: Let_def split: if_splits)
  then show ?case by (rule Cons.IH)
qed

lemma noStringAhead_start:
  assumes "stringLoop False 0 u = None"
  shows "noStringAhead (quoteChar # u)"
  unfolding noStringAhead_def
proof (intro allI impI)
  fix a v assume eq: "quoteChar # u = a @ quoteChar # v"
  show "stringLoop False 0 v = None"
  proof (cases a)
    case Nil
    with eq assms show ?thesis by simp
  next
    case (Cons c a')
    with eq have "u = a' @ quoteChar # v" by simp
    with assms show ?thesis using stringLoop_None_later by blast
  qed
qed

lemma noStringAhead_drop: "noStringAhead r \<Longrightarrow> noStringAhead (drop n r)"
  unfolding noStringAhead_def
  by (metis append.assoc append_take_drop_id)

section \<open>Repeated calls of \<open>Next\<close>\<close>

lemma Next_total:
  assumes "stdRegex t"
  shows "\<exists>tok t'. Next t = Inr (tok, t') \<and> stdRegex t' \<and>
           Pos tok = \<lparr>Line = line t, Coloumn = column t\<rparr> \<and>
           (if remaining t = [] then tok = newToken t TypeEOF [] \<and> t' = t
            else goodStep t tok t')"
proof (cases "remaining t = []")
  case True
  with Next_empty[OF assms True] assms show ?thesis by (simp add: newToken_def)
next
  case False
  from Next_nonempty[OF assms False] obtain tok t' where
    n: "Next t = Inr (tok, t')" "goodStep t tok t'" by blast
  with goodStep_stdRegex[OF n(2) assms] False show ?thesis by (auto simp: goodStep_def)
qed

lemma nextN_exhausted:
  assumes "stdRegex t" and "remaining t = []"
  shows "nextN n t = Inr (replicate n (newToken t TypeEOF []), t)"
  by (induction n) (simp_all add: Next_empty[OF assms])

lemma nextN_total:
  assumes "stdRegex t"
  shows "\<exists>toks t'. nextN n t = Inr (toks, t') \<and> length toks = n \<and> stdRegex t' \<and>
           (\<forall>k<n. length (remaining t) \<le> k \<longrightarrow> toks ! k = newToken t' TypeEOF []) \<and>
           (length (remaining t) \<le> n \<longrightarrow> remaining t' = [])"
  using assms
proof (induction n arbitrary: t)
  case 0
  then show ?case by simp
next
  case (Suc n)
  show ?case
  proof (cases "remaining t = []")
    case True
    with nextN_exhausted[OF Suc.prems True, of "Suc n"] Suc.prems show ?thesis
      by (simp del: nextN.simps replicate.simps)
  next
    case False
    from Next_nonempty[OF Suc.prems False] obtain tok t1 where
      n: "Next t = Inr (tok, t1)" "goodStep t tok t1" by blast
    have s1: "stdRegex t1" by (rule goodStep_stdRegex[OF n(2) Suc.prems])
    have l1: "length (remaining t1) < length (remaining t)" by (rule goodStep_shorter[OF n(2)])
    from Suc.IH[OF s1] obtain toks t' where ih: "nextN n t1 = Inr (toks, t')" "length toks = n"
      "stdRegex t'" "\<forall>k<n. length (remaining t1) \<le> k \<longrightarrow> toks ! k = newToken t' TypeEOF []"
      "length (remaining t1) \<le> n \<longrightarrow> remaining t' = []"
      by blast
    have "\<forall>k<Suc n. length (remaining t) \<le> k \<longrightarrow> (tok # toks) ! k = newToken t' TypeEOF []"
    proof (intro allI impI)
      fix k assume k: "k < Suc n" "length (remaining t) \<le> k"
      with l1 obtain k' where k': "k = Suc k'" by (cases k) auto
      with k l1 ih(4) show "(tok # toks) ! k = newToken t' TypeEOF []" by simp
    qed
    moreover have "length (remaining t) \<le> Suc n \<longrightarrow> remaining t' = []"
      using l1 ih(5) by simp
    ultimately show ?thesis using n(1) ih(1,2,3) by simp
  qed
qed

lemma goodStep_drop:
  assumes "goodStep t tok t'"
  shows "\<exists>n. 0 < n \<and> n \<le> length (remaining t) \<and> remaining t' = drop n (remaining t)"
proof (cases "Type tok = TypeNewline")
  case True
  with assms have "remaining t' = drop 1 (remaining t)" "1 \<le> length (remaining t)"
    by (auto simp: goodStep_def)
  then show ?thesis by (intro exI[of _ 1]) simp
next
  case False
  with assms obtain n where "0 < n" "n \<le> length (remaining t)" "t' = consumed n t"
    by (auto simp: goodStep_def)
  then show ?thesis by (intro exI[of _ n]) (simp add: consumed_def)
qed

lemma Next_noString:
  assumes "stdRegex t" and "noStringAhead (remaining t)" and "Next t = Inr (tok, t')"
  shows "Type tok \<noteq> TypeString \<and> noStringAhead (remaining t') \<and> stdRegex t'"
proof (cases "remaining t = []")
  case True
  with Next_empty[OF assms(1) True] assms show ?thesis by (auto simp: newToken_def)
next
  case False
  from Next_nonempty[OF assms(1) False] assms(3) have g: "goodStep t tok t'" by simp
  have "Type tok \<noteq> TypeString"
  proof
    assume "Type tok = TypeString"
    with g obtain u i where "remaining t = quoteChar # u" "stringLoop False 0 u = Some i"
      by (auto simp: goodStep_def)
    with assms(2) show False unfolding noStringAhead_def by (metis append_Nil option.distinct(1))
  qed
  moreover from goodStep_drop[OF g] obtain n where "remaining t' = drop n (remaining t)"
    by blast
  then have "noStringAhead (remaining t')" using noStringAhead_drop[OF assms(2)] by simp
  ultimately show ?thesis using goodStep_stdRegex[OF g assms(1)] by simp
qed

lemma nextN_noString:
  assumes "stdRegex t" and "noStringAhead (remaining t)" and "nextN n t = Inr (toks, t')"
  shows "\<forall>tok \<in> set toks. Type tok \<noteq> TypeString"
  using assms
proof (induction n arbitrary: t toks)
  case 0
  then show ?case by simp
next
  case (Suc n)
  from Suc.prems(3) obtain tok t1 toks1 where
    n: "Next t = Inr (tok, t1)" "nextN n t1 = Inr (toks1, t')" "toks = tok # toks1"
    by (auto split: sum.splits prod.splits)
  from Next_noString[OF Suc.prems(1,2) n(1)] Suc.IH[OF _ _ n(2)] n(3) show ?case by simp
qed

section \<open>Positions of successive tokens\<close>

lemma Next_posStep:
  assumes "stdRegex t" and "Next t = Inr (tok, t1)"
    and "Pos tok' = \<lparr>Line = line t1, Coloumn = column t1\<rparr>"
  shows "posStep tok tok'"
proof (cases "remaining t = []")
  case True
  with Next_empty[OF assms(1) True] assms(2,3) show ?thesis
    by (auto simp: posStep_def newToken_def)
next
  case False
  from Next_nonempty[OF assms(1) False] assms(2) have g: "goodStep t tok t1" by simp
  then have p: "Pos tok = \<lparr>Line = line t, Coloumn = column t\<rparr>" by (simp add: goodStep_def)
  show ?thesis
  proof (cases "Type tok = TypeNewline")
    case True
    with g have "line t1 = line t + 1" "column t1 = 1" by (auto simp: goodStep_def)
    with True p assms(3) show ?thesis by (simp add: posStep_def)
  next
    case False
    with g obtain n where "t1 = consumed n t" by (auto simp: goodStep_def)
    then have "line t1 = line t" "column t \<le> column t1" by (simp_all add: consumed_def)
    with False p assms(3) show ?thesis by (simp add: posStep_def)
  qed
qed

lemma Next_Pos:
  assumes "stdRegex t" and "Next t = Inr (tok, t1)"
  shows "Pos tok = \<lparr>Line = line t, Coloumn = column t\<rparr> \<and> stdRegex t1"
  using Next_total[OF assms(1)] assms(2) by auto

lemma nextN_successively:
  assumes "stdRegex t" and "nextN n t = Inr (toks, t')"
  shows "successively posStep toks \<and>
         (toks \<noteq> [] \<longrightarrow> Pos (hd toks) = \<lparr>Line = line t, Coloumn = column t\<rparr>)"
  using assms
proof (induction n arbitrary: t toks)
  case 0
  then show ?case by simp
next
  case (Suc n)
  from Suc.prems(2) obtain tok t1 toks1 where
    n: "Next t = Inr (tok, t1)" "nextN n t1 = Inr (toks1, t')" "toks = tok # toks1"
    by (auto split: sum.splits prod.splits)
  from Next_Pos[OF Suc.prems(1) n(1)] have
    p: "Pos tok = \<lparr>Line = line t, Coloumn = column t\<rparr>" and s1: "stdRegex t1" by simp_all
  from Suc.IH[OF s1 n(2)] have ih: "successively posStep toks1"
    "toks1 \<noteq> [] \<longrightarrow> Pos (hd toks1) = \<lparr>Line = line t1, Coloumn = column t1\<rparr>" by simp_all
  have "toks1 = [] \<or> posStep tok (hd toks1)"
    using ih(2) Next_posStep[OF Suc.prems(1) n(1)] by blast
  with ih(1) p n(3) show ?case by (simp add: successively_Cons)
qed

lemma posStep_posLe: "posStep tok tok' \<Longrightarrow> posLe (Pos tok) (Pos tok')"
  by (auto simp: posStep_def posLe_def split: if_splits)

section \<open>Lowering the input\<close>






section \<open>String tokens are cut from the lowered buffer\<close>





section \<open>The claims\<close>

text \<open>
  Claim C1, as amended. Tokenizing \<open>"// hello\n"\<close> yields first exactly one Comment token,
  then a Newline token. \<open>getComment\<close> takes the whole match of the pattern (\<open>Find\<close>, not
  the capture group), so the value of the Comment token is \<open>"// hello"\<close>, with the
  leading \<open>//\<close> and without the line feed; it is not \<open>" hello"\<close>.
\<close>

theorem C1_comment_whole_match:
  "nextN 2 (Load U ''// hello\<newline>'' NewTokenizer)
     = Inr ([\<lparr>Type = TypeComment, Value = ''// hello'', Pos = \<lparr>Line = 1, Coloumn = 1\<rparr>\<rparr>,
             \<lparr>Type = TypeNewline, Value = [], Pos = \<lparr>Line = 1, Coloumn = 9\<rparr>\<rparr>],
            (Load U ''// hello\<newline>'' NewTokenizer)\<lparr>line := 2, column := 1, remaining := []\<rparr>)"
proof -
  have "nextN 2 (Load id ''// hello\<newline>'' NewTokenizer)
     = Inr ([\<lparr>Type = TypeComment, Value = ''// hello'', Pos = \<lparr>Line = 1, Coloumn = 1\<rparr>\<rparr>,
             \<lparr>Type = TypeNewline, Value = [], Pos = \<lparr>Line = 1, Coloumn = 9\<rparr>\<rparr>],
            (Load id ''// hello\<newline>'' NewTokenizer)\<lparr>line := 2, column := 1, remaining := []\<rparr>)"
    by code_simp
  moreover have "Load U ''// hello\<newline>'' NewTokenizer = Load id ''// hello\<newline>'' NewTokenizer"
    by (rule Load_id) simp
  ultimately show ?thesis by simp
qed

text \<open>Claim C1 as it was stated fails at its own input: the value of the Comment token
  is not the text after the \<open>//\<close>.\<close>

theorem C1_comment_value_counterexample:
  "Next (Load id ''// hello\<newline>'' NewTokenizer)
     = Inr (\<lparr>Type = TypeComment, Value = ''// hello'', Pos = \<lparr>Line = 1, Coloumn = 1\<rparr>\<rparr>,
            (Load id ''// hello\<newline>'' NewTokenizer)\<lparr>column := 9, remaining := ''\<newline>''\<rparr>)
   \<and> ''// hello'' \<noteq> '' hello''"
  by code_simp

text \<open>
  Claim C2. When the remaining text starts with a double quote and the text after it has
  a closing quote at index \<open>k\<close> (the first quote that is not escaped; the text is then at
  least two bytes long), \<open>Next\<close> returns one String token whose value is the \<open>k\<close> bytes
  between the two quotes, backslashes included as they are, and the cursor is just past the
  closing quote.
\<close>

theorem C2_string_literal:
  assumes "stdRegex t" and "remaining t = quoteChar # tail" and "closingQuote tail k"
  shows "Next t = Inr (\<lparr>Type = TypeString, Value = take k tail,
                         Pos = \<lparr>Line = line t, Coloumn = column t\<rparr>\<rparr>,
                       t\<lparr>column := column t + int k + 2, remaining := drop (Suc k) tail\<rparr>)
       \<and> 2 \<le> length (remaining t)"
proof -
  from closingQuote_stringLoop[OF assms(3)] have "stringLoop False 0 tail = Some (int k)" .
  with Next_quote[OF assms(1,2)] assms(2)
  have "Next t = Inr (newToken t TypeString (take k tail), consumed (k + 2) t)" by simp
  moreover have "k < length tail" using assms(3) by (simp add: closingQuote_def)
  ultimately show ?thesis using assms(2)
    by (simp add: newToken_def consumed_def add.commute)
qed

theorem C2_string_literal_witness:
  "stdRegex (Load id [quoteChar, CHR ''a'', backslashChar, quoteChar, CHR ''b'', quoteChar]
              NewTokenizer)
   \<and> remaining (Load id [quoteChar, CHR ''a'', backslashChar, quoteChar, CHR ''b'', quoteChar]
                  NewTokenizer)
       = quoteChar # [CHR ''a'', backslashChar, quoteChar, CHR ''b'', quoteChar]
   \<and> closingQuote [CHR ''a'', backslashChar, quoteChar, CHR ''b'', quoteChar] 4
   \<and> Next (Load id [quoteChar, CHR ''a'', backslashChar, quoteChar, CHR ''b'', quoteChar]
              NewTokenizer)
       = Inr (\<lparr>Type = TypeString, Value = [CHR ''a'', backslashChar, quoteChar, CHR ''b''],
                Pos = \<lparr>Line = 1, Coloumn = 1\<rparr>\<rparr>,
              (Load id [quoteChar, CHR ''a'', backslashChar, quoteChar, CHR ''b'', quoteChar]
                 NewTokenizer)\<lparr>column := 7, remaining := []\<rparr>)"
proof -
  let ?s = "[quoteChar, CHR ''a'', backslashChar, quoteChar, CHR ''b'', quoteChar]"
  have s: "stdRegex (Load id ?s NewTokenizer)" by (rule stdRegex_Load)
  have r: "remaining (Load id ?s NewTokenizer)
       = quoteChar # [CHR ''a'', backslashChar, quoteChar, CHR ''b'', quoteChar]"
    by (simp add: Load_def ToLower_def)
  have c: "closingQuote [CHR ''a'', backslashChar, quoteChar, CHR ''b'', quoteChar] 4"
    by code_simp
  from C2_string_literal[OF s r c] s r c show ?thesis by (simp add: Load_def)
qed

text \<open>
  Claim C3, as amended. When the remaining text starts with a double quote and the text
  after it has no closing quote, \<open>Next\<close> returns an Unknown token for the quote alone and
  moves one byte on. No later call returns a String token either; every call returns a
  token (no panic), and after as many calls as the text has bytes the input is exhausted.
  The rest of the text is tokenized by the usual recognizers: for \<open>"abc\<close> the tokens are
  Unknown \<open>"\<close>, Identifier \<open>abc\<close> and the end of input. Other inputs give tokens of other
  kinds too, such as Whitespace.
\<close>

theorem C3_unterminated_string:
  assumes "stdRegex t" and "remaining t = quoteChar # tail" and "\<not> hasClosingQuote tail"
  shows "Next t = Inr (\<lparr>Type = TypeUnknown, Value = [quoteChar],
                         Pos = \<lparr>Line = line t, Coloumn = column t\<rparr>\<rparr>,
                       t\<lparr>column := column t + 1, remaining := tail\<rparr>)
       \<and> (\<forall>n. \<exists>toks t'. nextN n t = Inr (toks, t') \<and> length toks = n
              \<and> (\<forall>tok \<in> set toks. Type tok \<noteq> TypeString)
              \<and> (length (remaining t) \<le> n \<longrightarrow> remaining t' = []))
       \<and> nextN 3 (Load U (quoteChar # ''abc'') NewTokenizer)
           = Inr ([\<lparr>Type = TypeUnknown, Value = [quoteChar], Pos = \<lparr>Line = 1, Coloumn = 1\<rparr>\<rparr>,
                   \<lparr>Type = TypeID, Value = ''abc'', Pos = \<lparr>Line = 1, Coloumn = 2\<rparr>\<rparr>,
                   \<lparr>Type = TypeEOF, Value = [], Pos = \<lparr>Line = 1, Coloumn = 5\<rparr>\<rparr>],
                  (Load U (quoteChar # ''abc'') NewTokenizer)\<lparr>column := 5, remaining := []\<rparr>)"
proof (intro conjI allI)
  have none: "stringLoop False 0 tail = None"
    by (rule no_closingQuote_stringLoop[OF assms(3)])
  with Next_quote[OF assms(1,2)] assms(2)
  show "Next t = Inr (\<lparr>Type = TypeUnknown, Value = [quoteChar],
                         Pos = \<lparr>Line = line t, Coloumn = column t\<rparr>\<rparr>,
                       t\<lparr>column := column t + 1, remaining := tail\<rparr>)"
    by (simp add: newToken_def consumed_def)
  have inv: "noStringAhead (remaining t)"
    using noStringAhead_start[OF none] assms(2) by simp
  fix n
  from nextN_total[OF assms(1), of n] obtain toks t' where
    n: "nextN n t = Inr (toks, t')" "length toks = n"
       "length (remaining t) \<le> n \<longrightarrow> remaining t' = []" by blast
  from nextN_noString[OF assms(1) inv n(1)] n
  show "\<exists>toks t'. nextN n t = Inr (toks, t') \<and> length toks = n
              \<and> (\<forall>tok \<in> set toks. Type tok \<noteq> TypeString)
              \<and> (length (remaining t) \<le> n \<longrightarrow> remaining t' = [])"
    by blast
next
  have "nextN 3 (Load id (quoteChar # ''abc'') NewTokenizer)
           = Inr ([\<lparr>Type = TypeUnknown, Value = [quoteChar], Pos = \<lparr>Line = 1, Coloumn = 1\<rparr>\<rparr>,
                   \<lparr>Type = TypeID, Value = ''abc'', Pos = \<lparr>Line = 1, Coloumn = 2\<rparr>\<rparr>,
                   \<lparr>Type = TypeEOF, Value = [], Pos = \<lparr>Line = 1, Coloumn = 5\<rparr>\<rparr>],
                  (Load id (quoteChar # ''abc'') NewTokenizer)\<lparr>column := 5, remaining := []\<rparr>)"
    by code_simp
  moreover have "Load U (quoteChar # ''abc'') NewTokenizer = Load id (quoteChar # ''abc'') NewTokenizer"
    by (rule Load_id) simp
  ultimately show "nextN 3 (Load U (quoteChar # ''abc'') NewTokenizer)
           = Inr ([\<lparr>Type = TypeUnknown, Value = [quoteChar], Pos = \<lparr>Line = 1, Coloumn = 1\<rparr>\<rparr>,
                   \<lparr>Type = TypeID, Value = ''abc'', Pos = \<lparr>Line = 1, Coloumn = 2\<rparr>\<rparr>,
                   \<lparr>Type = TypeEOF, Value = [], Pos = \<lparr>Line = 1, Coloumn = 5\<rparr>\<rparr>],
                  (Load U (quoteChar # ''abc'') NewTokenizer)\<lparr>column := 5, remaining := []\<rparr>)"
    by simp
qed

theorem C3_unterminated_string_witness:
  "stdRegex (Load id (quoteChar # ''a b'') NewTokenizer)
   \<and> remaining (Load id (quoteChar # ''a b'') NewTokenizer) = quoteChar # ''a b''
   \<and> \<not> hasClosingQuote ''a b''
   \<and> Next (Load id (quoteChar # ''a b'') NewTokenizer)
       = Inr (\<lparr>Type = TypeUnknown, Value = [quoteChar], Pos = \<lparr>Line = 1, Coloumn = 1\<rparr>\<rparr>,
              (Load id (quoteChar # ''a b'') NewTokenizer)\<lparr>column := 2, remaining := ''a b''\<rparr>)
   \<and> (\<exists>toks t'. nextN 4 (Load id (quoteChar # ''a b'') NewTokenizer) = Inr (toks, t')
         \<and> length toks = 4 \<and> (\<forall>tok \<in> set toks. Type tok \<noteq> TypeString)
         \<and> remaining t' = [])"
proof -
  let ?t = "Load id (quoteChar # ''a b'') NewTokenizer"
  have s: "stdRegex ?t" by (rule stdRegex_Load)
  have r: "remaining ?t = quoteChar # ''a b''" by (simp add: Load_def ToLower_def)
  have c: "\<not> hasClosingQuote ''a b''" by code_simp
  have l: "length (remaining ?t) \<le> 4" by (simp add: r)
  from C3_unterminated_string[OF s r c, of id] l
  have "Next ?t = Inr (\<lparr>Type = TypeUnknown, Value = [quoteChar],
                         Pos = \<lparr>Line = line ?t, Coloumn = column ?t\<rparr>\<rparr>,
                       ?t\<lparr>column := column ?t + 1, remaining := ''a b''\<rparr>)"
    and "\<exists>toks t'. nextN 4 ?t = Inr (toks, t') \<and> length toks = 4
         \<and> (\<forall>tok \<in> set toks. Type tok \<noteq> TypeString) \<and> remaining t' = []"
    by blast+
  with s r c show ?thesis by (simp add: Load_def)
qed

text \<open>Claim C3 as it was stated fails at \<open>"a b\<close>, a text with an opening quote and no
  closing quote: its tokens are not all Unknown, Identifier or Number tokens, the third
  one is a Whitespace token.\<close>

theorem C3_token_kinds_counterexample:
  "nextN 4 (Load id (quoteChar # ''a b'') NewTokenizer)
     = Inr ([\<lparr>Type = TypeUnknown, Value = [quoteChar], Pos = \<lparr>Line = 1, Coloumn = 1\<rparr>\<rparr>,
             \<lparr>Type = TypeID, Value = ''a'', Pos = \<lparr>Line = 1, Coloumn = 2\<rparr>\<rparr>,
             \<lparr>Type = TypeWhitespace, Value = '' '', Pos = \<lparr>Line = 1, Coloumn = 3\<rparr>\<rparr>,
             \<lparr>Type = TypeID, Value = ''b'', Pos = \<lparr>Line = 1, Coloumn = 4\<rparr>\<rparr>],
            (Load id (quoteChar # ''a b'') NewTokenizer)\<lparr>column := 5, remaining := []\<rparr>)
   \<and> \<not> hasClosingQuote ''a b''
   \<and> TypeWhitespace \<noteq> TypeUnknown \<and> TypeWhitespace \<noteq> TypeID \<and> TypeWhitespace \<noteq> TypeNumber"
  by code_simp

text \<open>
  Claim C4. With the patterns of \<open>NewTokenizer\<close>, which every loaded tokenizer has, a call
  of \<open>Next\<close> on a non-empty rest returns a token other than the end-of-input token and
  drops \<open>n \<ge> 1\<close> bytes of the rest; on an empty rest it returns the end-of-input token with
  empty value and leaves the state as it is. So any number of calls in a row succeeds, and
  every call from the \<open>length (remaining t)\<close>-th on returns the end-of-input token.
\<close>

theorem C4_progress_and_termination:
  assumes "stdRegex t"
  shows "(remaining t \<noteq> [] \<longrightarrow>
            (\<exists>tok t' n. Next t = Inr (tok, t') \<and> Type tok \<noteq> TypeEOF \<and> 0 < n
                \<and> n \<le> length (remaining t) \<and> remaining t' = drop n (remaining t)))
       \<and> (remaining t = [] \<longrightarrow>
            Next t = Inr (\<lparr>Type = TypeEOF, Value = [],
                            Pos = \<lparr>Line = line t, Coloumn = column t\<rparr>\<rparr>, t))
       \<and> (\<forall>n. \<exists>toks t'. nextN n t = Inr (toks, t') \<and> length toks = n
              \<and> (\<forall>k<n. length (remaining t) \<le> k \<longrightarrow>
                     Type (toks ! k) = TypeEOF \<and> Value (toks ! k) = [])
              \<and> (length (remaining t) \<le> n \<longrightarrow> remaining t' = []))
       \<and> stdRegex (Load U input NewTokenizer)"
proof (intro conjI impI allI)
  assume ne: "remaining t \<noteq> []"
  from Next_nonempty[OF assms ne] obtain tok t' where
    n: "Next t = Inr (tok, t')" "goodStep t tok t'" by blast
  from goodStep_drop[OF n(2)] n
  show "\<exists>tok t' n. Next t = Inr (tok, t') \<and> Type tok \<noteq> TypeEOF \<and> 0 < n
                \<and> n \<le> length (remaining t) \<and> remaining t' = drop n (remaining t)"
    by (auto simp: goodStep_def)
next
  assume "remaining t = []"
  from Next_empty[OF assms this]
  show "Next t = Inr (\<lparr>Type = TypeEOF, Value = [],
                            Pos = \<lparr>Line = line t, Coloumn = column t\<rparr>\<rparr>, t)"
    by (simp add: newToken_def)
next
  fix n
  from nextN_total[OF assms, of n]
  show "\<exists>toks t'. nextN n t = Inr (toks, t') \<and> length toks = n
              \<and> (\<forall>k<n. length (remaining t) \<le> k \<longrightarrow>
                     Type (toks ! k) = TypeEOF \<and> Value (toks ! k) = [])
              \<and> (length (remaining t) \<le> n \<longrightarrow> remaining t' = [])"
    by (auto simp: newToken_def)
next
  show "stdRegex (Load U input NewTokenizer)" by (rule stdRegex_Load)
qed

theorem C4_progress_and_termination_witness:
  "stdRegex (Load id ''a b'' NewTokenizer)
   \<and> remaining (Load id ''a b'' NewTokenizer) \<noteq> []
   \<and> (\<exists>tok t' n. Next (Load id ''a b'' NewTokenizer) = Inr (tok, t') \<and> Type tok \<noteq> TypeEOF
         \<and> 0 < n \<and> remaining t' = drop n (remaining (Load id ''a b'' NewTokenizer)))
   \<and> (3::nat) < 5 \<and> length (remaining (Load id ''a b'' NewTokenizer)) \<le> 3
   \<and> (\<exists>toks t'. nextN 5 (Load id ''a b'' NewTokenizer) = Inr (toks, t')
         \<and> Type (toks ! 3) = TypeEOF \<and> Value (toks ! 3) = [] \<and> remaining t' = [])
   \<and> remaining (Load id [] NewTokenizer) = []
   \<and> Next (Load id [] NewTokenizer)
        = Inr (\<lparr>Type = TypeEOF, Value = [], Pos = \<lparr>Line = 1, Coloumn = 1\<rparr>\<rparr>,
               Load id [] NewTokenizer)"
proof -
  let ?t = "Load id ''a b'' NewTokenizer"
  let ?e = "Load id [] NewTokenizer"
  have s: "stdRegex ?t" and se: "stdRegex ?e" by (rule stdRegex_Load)+
  have r: "remaining ?t = ''a b''" and re: "remaining ?e = []"
    by (simp_all add: Load_def ToLower_def)
  have ne: "remaining ?t \<noteq> []" and l: "length (remaining ?t) \<le> 3" by (simp_all add: r)
  from C4_progress_and_termination[OF s, of id] ne
  have 1: "\<exists>tok t' n. Next ?t = Inr (tok, t') \<and> Type tok \<noteq> TypeEOF
         \<and> 0 < n \<and> remaining t' = drop n (remaining ?t)"
    by blast
  from C4_progress_and_termination[OF s, of id] obtain toks t' where
    n: "nextN 5 ?t = Inr (toks, t')"
      "\<forall>k<5. length (remaining ?t) \<le> k \<longrightarrow> Type (toks ! k) = TypeEOF \<and> Value (toks ! k) = []"
      "length (remaining ?t) \<le> 5 \<longrightarrow> remaining t' = []"
    by blast
  from n(2) l have "Type (toks ! 3) = TypeEOF \<and> Value (toks ! 3) = []" by simp
  with n(1,3) l have 2: "\<exists>toks t'. nextN 5 ?t = Inr (toks, t')
         \<and> Type (toks ! 3) = TypeEOF \<and> Value (toks ! 3) = [] \<and> remaining t' = []"
    by auto
  from C4_progress_and_termination[OF se, of id] re
  have 3: "Next ?e = Inr (\<lparr>Type = TypeEOF, Value = [],
                            Pos = \<lparr>Line = line ?e, Coloumn = column ?e\<rparr>\<rparr>, ?e)"
    by blast
  have 4: "line ?e = 1" "column ?e = 1" by (simp_all add: Load_def)
  from s ne 1 l 2 re 3 show ?thesis unfolding 4 by simp
qed

text \<open>
  Claim C5. Tokenizing \<open>">="\<close> yields one Symbol token \<open>">="\<close> (then the end of input), not
  \<open>">"\<close> and \<open>"="\<close>; tokenizing \<open>">"\<close> yields one Symbol token \<open>">"\<close>. \<open>getSymbol\<close> returns
  the first entry of the list \<open>symbols\<close> that is a prefix of the remaining text, and in
  that list no entry comes before an entry that extends it.
\<close>

theorem C5_symbol_precedence:
  "nextN 2 (Load U ''>='' NewTokenizer)
     = Inr ([\<lparr>Type = TypeSymbol, Value = ''>='', Pos = \<lparr>Line = 1, Coloumn = 1\<rparr>\<rparr>,
             \<lparr>Type = TypeEOF, Value = [], Pos = \<lparr>Line = 1, Coloumn = 3\<rparr>\<rparr>],
            (Load U ''>='' NewTokenizer)\<lparr>column := 3, remaining := []\<rparr>)
   \<and> nextN 2 (Load U ''>'' NewTokenizer)
     = Inr ([\<lparr>Type = TypeSymbol, Value = ''>'', Pos = \<lparr>Line = 1, Coloumn = 1\<rparr>\<rparr>,
             \<lparr>Type = TypeEOF, Value = [], Pos = \<lparr>Line = 1, Coloumn = 2\<rparr>\<rparr>],
            (Load U ''>'' NewTokenizer)\<lparr>column := 2, remaining := []\<rparr>)
   \<and> getSymbol t =
       (case find (HasPrefix (remaining t)) symbols of
          None \<Rightarrow> Inr (None, t)
        | Some symbol \<Rightarrow>
            Inr (Some \<lparr>Type = TypeSymbol, Value = symbol,
                       Pos = \<lparr>Line = line t, Coloumn = column t\<rparr>\<rparr>,
                 t\<lparr>column := column t + int (length symbol),
                   remaining := drop (length symbol) (remaining t)\<rparr>))
   \<and> (\<forall>i j. i < j \<and> j < length symbols \<longrightarrow>
          \<not> (length (symbols ! i) < length (symbols ! j)
             \<and> HasPrefix (symbols ! j) (symbols ! i)))"
proof (intro conjI)
  have "nextN 2 (Load id ''>='' NewTokenizer)
     = Inr ([\<lparr>Type = TypeSymbol, Value = ''>='', Pos = \<lparr>Line = 1, Coloumn = 1\<rparr>\<rparr>,
             \<lparr>Type = TypeEOF, Value = [], Pos = \<lparr>Line = 1, Coloumn = 3\<rparr>\<rparr>],
            (Load id ''>='' NewTokenizer)\<lparr>column := 3, remaining := []\<rparr>)"
    by code_simp
  moreover have "Load U ''>='' NewTokenizer = Load id ''>='' NewTokenizer"
    by (rule Load_id) simp
  ultimately show "nextN 2 (Load U ''>='' NewTokenizer)
     = Inr ([\<lparr>Type = TypeSymbol, Value = ''>='', Pos = \<lparr>Line = 1, Coloumn = 1\<rparr>\<rparr>,
             \<lparr>Type = TypeEOF, Value = [], Pos = \<lparr>Line = 1, Coloumn = 3\<rparr>\<rparr>],
            (Load U ''>='' NewTokenizer)\<lparr>column := 3, remaining := []\<rparr>)"
    by simp
  have "nextN 2 (Load id ''>'' NewTokenizer)
     = Inr ([\<lparr>Type = TypeSymbol, Value = ''>'', Pos = \<lparr>Line = 1, Coloumn = 1\<rparr>\<rparr>,
             \<lparr>Type = TypeEOF, Value = [], Pos = \<lparr>Line = 1, Coloumn = 2\<rparr>\<rparr>],
            (Load id ''>'' NewTokenizer)\<lparr>column := 2, remaining := []\<rparr>)"
    by code_simp
  moreover have "Load U ''>'' NewTokenizer = Load id ''>'' NewTokenizer"
    by (rule Load_id) simp
  ultimately show "nextN 2 (Load U ''>'' NewTokenizer)
     = Inr ([\<lparr>Type = TypeSymbol, Value = ''>'', Pos = \<lparr>Line = 1, Coloumn = 1\<rparr>\<rparr>,
             \<lparr>Type = TypeEOF, Value = [], Pos = \<lparr>Line = 1, Coloumn = 2\<rparr>\<rparr>],
            (Load U ''>'' NewTokenizer)\<lparr>column := 2, remaining := []\<rparr>)"
    by simp
  show "getSymbol t =
       (case find (HasPrefix (remaining t)) symbols of
          None \<Rightarrow> Inr (None, t)
        | Some symbol \<Rightarrow>
            Inr (Some \<lparr>Type = TypeSymbol, Value = symbol,
                       Pos = \<lparr>Line = line t, Coloumn = column t\<rparr>\<rparr>,
                 t\<lparr>column := column t + int (length symbol),
                   remaining := drop (length symbol) (remaining t)\<rparr>))"
    by (simp add: getSymbol_def getSymbolLoop_eq newToken_def consumed_def split: option.splits)
  show "\<forall>i j. i < j \<and> j < length symbols \<longrightarrow>
          \<not> (length (symbols ! i) < length (symbols ! j)
             \<and> HasPrefix (symbols ! j) (symbols ! i))"
    using symbols_order unfolding sorted_wrt_iff_nth_less by blast
qed

theorem C5_symbol_precedence_witness:
  "(13::nat) < 23 \<and> 23 < length symbols
   \<and> \<not> (length (symbols ! 13) < length (symbols ! 23)
        \<and> HasPrefix (symbols ! 23) (symbols ! 13))
   \<and> find (HasPrefix ''>=1'') symbols = Some ''>=''"
proof -
  have "find (HasPrefix ''>=1'') symbols = Some ''>=''"
    by (simp add: symbols_def HasPrefix_def)
  moreover have "(13::nat) < 23 \<and> 23 < length symbols" by (simp add: symbols_def)
  ultimately show ?thesis
    using C5_symbol_precedence[of id NewTokenizer] by blast
qed

text \<open>
  Claim C6, as amended. Tokenizing \<open>"ifx"\<close> yields one Identifier token \<open>"ifx"\<close> (then the
  end of input), not a Keyword token. \<open>getKeyword\<close> returns a token exactly when the
  unconsumed text starts with a word of \<open>if, else, end, then, goto, and, or, not\<close> that is
  followed by the end of the text or by a byte that is not a word character. The pattern
  is matched against the unconsumed text, so its leading \<open>\b\<close> only says that this text
  starts with a word character, which every keyword does; what was consumed before plays
  no part. A keyword right after a consumed byte, word character or not, is a Keyword
  token: \<open>"_if"\<close> gives Unknown \<open>_\<close>, then Keyword \<open>if\<close>.
\<close>

theorem C6_keyword_boundary:
  assumes "stdRegex t"
  shows "nextN 2 (Load U ''ifx'' NewTokenizer)
     = Inr ([\<lparr>Type = TypeID, Value = ''ifx'', Pos = \<lparr>Line = 1, Coloumn = 1\<rparr>\<rparr>,
             \<lparr>Type = TypeEOF, Value = [], Pos = \<lparr>Line = 1, Coloumn = 4\<rparr>\<rparr>],
            (Load U ''ifx'' NewTokenizer)\<lparr>column := 4, remaining := []\<rparr>)
   \<and> (getKeyword t = Inr (None, t) \<or>
        (\<exists>kw rest. kw \<in> set keywordList \<and> remaining t = kw @ rest \<and> \<not> wordAt rest
            \<and> wordAt (remaining t)
            \<and> getKeyword t = Inr (Some \<lparr>Type = TypeKeyword, Value = kw,
                                         Pos = \<lparr>Line = line t, Coloumn = column t\<rparr>\<rparr>,
                                   t\<lparr>column := column t + int (length kw), remaining := rest\<rparr>)))
   \<and> (\<forall>kw rest. kw \<in> set keywordList \<and> remaining t = kw @ rest \<and> \<not> wordAt rest \<longrightarrow>
          getKeyword t = Inr (Some \<lparr>Type = TypeKeyword, Value = kw,
                                     Pos = \<lparr>Line = line t, Coloumn = column t\<rparr>\<rparr>,
                               t\<lparr>column := column t + int (length kw), remaining := rest\<rparr>))
   \<and> (\<forall>kw rest. kw \<in> set keywordList \<and> remaining t = kw @ rest \<and> wordAt rest \<longrightarrow>
          getKeyword t = Inr (None, t))
   \<and> nextN 3 (Load U ''_if'' NewTokenizer)
     = Inr ([\<lparr>Type = TypeUnknown, Value = ''_'', Pos = \<lparr>Line = 1, Coloumn = 1\<rparr>\<rparr>,
             \<lparr>Type = TypeKeyword, Value = ''if'', Pos = \<lparr>Line = 1, Coloumn = 2\<rparr>\<rparr>,
             \<lparr>Type = TypeEOF, Value = [], Pos = \<lparr>Line = 1, Coloumn = 4\<rparr>\<rparr>],
            (Load U ''_if'' NewTokenizer)\<lparr>column := 4, remaining := []\<rparr>)"
proof (intro conjI)
  have "nextN 2 (Load id ''ifx'' NewTokenizer)
     = Inr ([\<lparr>Type = TypeID, Value = ''ifx'', Pos = \<lparr>Line = 1, Coloumn = 1\<rparr>\<rparr>,
             \<lparr>Type = TypeEOF, Value = [], Pos = \<lparr>Line = 1, Coloumn = 4\<rparr>\<rparr>],
            (Load id ''ifx'' NewTokenizer)\<lparr>column := 4, remaining := []\<rparr>)"
    by code_simp
  moreover have "Load U ''ifx'' NewTokenizer = Load id ''ifx'' NewTokenizer"
    by (rule Load_id) simp
  ultimately show "nextN 2 (Load U ''ifx'' NewTokenizer)
     = Inr ([\<lparr>Type = TypeID, Value = ''ifx'', Pos = \<lparr>Line = 1, Coloumn = 1\<rparr>\<rparr>,
             \<lparr>Type = TypeEOF, Value = [], Pos = \<lparr>Line = 1, Coloumn = 4\<rparr>\<rparr>],
            (Load U ''ifx'' NewTokenizer)\<lparr>column := 4, remaining := []\<rparr>)"
    by simp
  have k: "KeywordRegex t = keywordRegex" using assms by (simp add: stdRegex_def)
  have yes: "getKeyword t = Inr (Some \<lparr>Type = TypeKeyword, Value = kw,
                                     Pos = \<lparr>Line = line t, Coloumn = column t\<rparr>\<rparr>,
                               t\<lparr>column := column t + int (length kw), remaining := rest\<rparr>)"
    if "kw \<in> set keywordList" "remaining t = kw @ rest" "\<not> wordAt rest" for kw rest
    using that FindSubmatch_keyword_if[OF that(1,3)]
    by (simp add: getKeyword_eq[OF k] newToken_def consumed_def)
  show "getKeyword t = Inr (None, t) \<or>
        (\<exists>kw rest. kw \<in> set keywordList \<and> remaining t = kw @ rest \<and> \<not> wordAt rest
            \<and> wordAt (remaining t)
            \<and> getKeyword t = Inr (Some \<lparr>Type = TypeKeyword, Value = kw,
                                         Pos = \<lparr>Line = line t, Coloumn = column t\<rparr>\<rparr>,
                                   t\<lparr>column := column t + int (length kw), remaining := rest\<rparr>))"
  proof (cases "FindSubmatch keywordRegex (remaining t)")
    case None
    then show ?thesis by (simp add: getKeyword_eq[OF k])
  next
    case (Some p)
    obtain f0 f1 where "p = (f0, f1)" by (cases p)
    with Some FindSubmatch_keyword_only[of "remaining t" f0 f1]
    obtain rest where "f0 \<in> set keywordList" "remaining t = f0 @ rest" "\<not> wordAt rest"
      "wordAt (remaining t)" by auto
    with yes[of f0 rest] show ?thesis by blast
  qed
  show "\<forall>kw rest. kw \<in> set keywordList \<and> remaining t = kw @ rest \<and> \<not> wordAt rest \<longrightarrow>
          getKeyword t = Inr (Some \<lparr>Type = TypeKeyword, Value = kw,
                                     Pos = \<lparr>Line = line t, Coloumn = column t\<rparr>\<rparr>,
                               t\<lparr>column := column t + int (length kw), remaining := rest\<rparr>)"
    using yes by blast
  show "\<forall>kw rest. kw \<in> set keywordList \<and> remaining t = kw @ rest \<and> wordAt rest \<longrightarrow>
          getKeyword t = Inr (None, t)"
  proof (intro allI impI)
    fix kw rest
    assume a: "kw \<in> set keywordList \<and> remaining t = kw @ rest \<and> wordAt rest"
    have "FindSubmatch keywordRegex (remaining t) = None"
    proof (cases "FindSubmatch keywordRegex (remaining t)")
      case (Some p)
      obtain f0 f1 where "p = (f0, f1)" by (cases p)
      with Some FindSubmatch_keyword_only[of "remaining t" f0 f1]
      obtain rest' where f: "f0 \<in> set keywordList" "remaining t = f0 @ rest'" "\<not> wordAt rest'"
        by auto
      from a f(1,2) have "kw = f0"
        by (auto simp: keywordList_def)
      with a f show ?thesis by simp
    qed simp
    then show "getKeyword t = Inr (None, t)" by (simp add: getKeyword_eq[OF k])
  qed
  have "nextN 3 (Load id ''_if'' NewTokenizer)
     = Inr ([\<lparr>Type = TypeUnknown, Value = ''_'', Pos = \<lparr>Line = 1, Coloumn = 1\<rparr>\<rparr>,
             \<lparr>Type = TypeKeyword, Value = ''if'', Pos = \<lparr>Line = 1, Coloumn = 2\<rparr>\<rparr>,
             \<lparr>Type = TypeEOF, Value = [], Pos = \<lparr>Line = 1, Coloumn = 4\<rparr>\<rparr>],
            (Load id ''_if'' NewTokenizer)\<lparr>column := 4, remaining := []\<rparr>)"
    by code_simp
  moreover have "Load U ''_if'' NewTokenizer = Load id ''_if'' NewTokenizer"
    by (rule Load_id) simp
  ultimately show "nextN 3 (Load U ''_if'' NewTokenizer)
     = Inr ([\<lparr>Type = TypeUnknown, Value = ''_'', Pos = \<lparr>Line = 1, Coloumn = 1\<rparr>\<rparr>,
             \<lparr>Type = TypeKeyword, Value = ''if'', Pos = \<lparr>Line = 1, Coloumn = 2\<rparr>\<rparr>,
             \<lparr>Type = TypeEOF, Value = [], Pos = \<lparr>Line = 1, Coloumn = 4\<rparr>\<rparr>],
            (Load U ''_if'' NewTokenizer)\<lparr>column := 4, remaining := []\<rparr>)"
    by simp
qed

theorem C6_keyword_boundary_witness:
  "stdRegex (Load id ''if x'' NewTokenizer)
   \<and> ''if'' \<in> set keywordList
   \<and> remaining (Load id ''if x'' NewTokenizer) = ''if'' @ '' x''
   \<and> \<not> wordAt '' x''
   \<and> getKeyword (Load id ''if x'' NewTokenizer)
       = Inr (Some \<lparr>Type = TypeKeyword, Value = ''if'', Pos = \<lparr>Line = 1, Coloumn = 1\<rparr>\<rparr>,
              (Load id ''if x'' NewTokenizer)\<lparr>column := 3, remaining := '' x''\<rparr>)"
proof -
  have s: "stdRegex (Load id ''if x'' NewTokenizer)" by (rule stdRegex_Load)
  have h: "''if'' \<in> set keywordList \<and> remaining (Load id ''if x'' NewTokenizer) = ''if'' @ '' x''
      \<and> \<not> wordAt '' x''"
    by (simp add: keywordList_def Load_def ToLower_def wordAt_def isWordChar_def inRanges_def)
  from C6_keyword_boundary[OF s, of id] h
  have "getKeyword (Load id ''if x'' NewTokenizer)
       = Inr (Some \<lparr>Type = TypeKeyword, Value = ''if'',
                    Pos = \<lparr>Line = line (Load id ''if x'' NewTokenizer),
                           Coloumn = column (Load id ''if x'' NewTokenizer)\<rparr>\<rparr>,
              (Load id ''if x'' NewTokenizer)\<lparr>column := column (Load id ''if x'' NewTokenizer)
                 + int (length ''if''), remaining := '' x''\<rparr>)"
    by blast
  with s h show ?thesis by (simp add: Load_def)
qed

text \<open>
  Claim C6 as it was stated fails at \<open>"1if"\<close>: the word \<open>if\<close> follows the word character
  \<open>1\<close> in the input, so no word boundary stands in front of it there, and it is a Keyword
  token all the same, since the pattern is matched against the unconsumed text only.
\<close>

theorem C6_left_boundary_counterexample:
  "nextN 3 (Load id ''1if'' NewTokenizer)
     = Inr ([\<lparr>Type = TypeNumber, Value = ''1'', Pos = \<lparr>Line = 1, Coloumn = 1\<rparr>\<rparr>,
             \<lparr>Type = TypeKeyword, Value = ''if'', Pos = \<lparr>Line = 1, Coloumn = 2\<rparr>\<rparr>,
             \<lparr>Type = TypeEOF, Value = [], Pos = \<lparr>Line = 1, Coloumn = 4\<rparr>\<rparr>],
            (Load id ''1if'' NewTokenizer)\<lparr>column := 4, remaining := []\<rparr>)
   \<and> isWordChar CHR ''1''"
  by code_simp



text \<open>
  Claim C8. When the next unconsumed byte is the line feed, \<open>Next\<close> returns a Newline token
  with empty value at the line and column before the call; the line counter is
  incremented, the column counter is set to 0 and \<open>advance(1)\<close> makes it 1 and drops one
  byte, so that the token returned by the following call is at column 1 of the next line.
\<close>

theorem C8_newline:
  assumes "stdRegex t" and "remaining t = newlineChar # rest"
  shows "Next t = Inr (\<lparr>Type = TypeNewline, Value = [],
                         Pos = \<lparr>Line = line t, Coloumn = column t\<rparr>\<rparr>,
                       t\<lparr>line := line t + 1, column := 1, remaining := rest\<rparr>)
       \<and> advance 1 (t\<lparr>line := line t + 1, column := 0\<rparr>)
           = Inr (t\<lparr>line := line t + 1, column := 1, remaining := rest\<rparr>)
       \<and> (\<exists>tok' t''. Next (t\<lparr>line := line t + 1, column := 1, remaining := rest\<rparr>) = Inr (tok', t'')
             \<and> Pos tok' = \<lparr>Line = line t + 1, Coloumn = 1\<rparr>)"
proof (intro conjI)
  show "Next t = Inr (\<lparr>Type = TypeNewline, Value = [],
                         Pos = \<lparr>Line = line t, Coloumn = column t\<rparr>\<rparr>,
                       t\<lparr>line := line t + 1, column := 1, remaining := rest\<rparr>)"
    using Next_newline[OF assms] by (simp add: newToken_def)
  show "advance 1 (t\<lparr>line := line t + 1, column := 0\<rparr>)
           = Inr (t\<lparr>line := line t + 1, column := 1, remaining := rest\<rparr>)"
    using assms(2) by (simp add: advance_def)
  have "stdRegex (t\<lparr>line := line t + 1, column := 1, remaining := rest\<rparr>)"
    using assms(1) by (simp add: stdRegex_def)
  from Next_pos[OF this]
  show "\<exists>tok' t''. Next (t\<lparr>line := line t + 1, column := 1, remaining := rest\<rparr>) = Inr (tok', t'')
             \<and> Pos tok' = \<lparr>Line = line t + 1, Coloumn = 1\<rparr>"
    by simp
qed

theorem C8_newline_witness:
  "stdRegex (Load id [newlineChar] NewTokenizer)
   \<and> remaining (Load id [newlineChar] NewTokenizer) = newlineChar # []
   \<and> Next (Load id [newlineChar] NewTokenizer)
       = Inr (\<lparr>Type = TypeNewline, Value = [], Pos = \<lparr>Line = 1, Coloumn = 1\<rparr>\<rparr>,
              (Load id [newlineChar] NewTokenizer)\<lparr>line := 2, column := 1, remaining := []\<rparr>)"
proof -
  have s: "stdRegex (Load id [newlineChar] NewTokenizer)" by (rule stdRegex_Load)
  have r: "remaining (Load id [newlineChar] NewTokenizer) = newlineChar # []"
    by (simp add: Load_def ToLower_def)
  from C8_newline[OF s r] s r show ?thesis by (simp add: Load_def)
qed

text \<open>
  Claim C9. In the tokens returned by any number of calls of \<open>Next\<close> after one \<open>Load\<close>, the
  first token is at line 1, column 1, and each token is followed by a token whose
  position is not smaller in the lexicographic order of line and column. After a Newline
  token the next token is on the next line at column 1; after any other token the next one
  is on the same line, at the same or a larger column. So the line grows exactly at the
  Newline tokens, and the column restarts at 1 there and nowhere else.
\<close>

theorem C9_positions_monotone:
  assumes "nextN n (Load U input NewTokenizer) = Inr (toks, t')"
  shows "(0 < n \<longrightarrow> Pos (toks ! 0) = \<lparr>Line = 1, Coloumn = 1\<rparr>)
       \<and> (\<forall>k. Suc k < n \<longrightarrow>
            posLe (Pos (toks ! k)) (Pos (toks ! Suc k))
            \<and> (if Type (toks ! k) = TypeNewline
               then Line (Pos (toks ! Suc k)) = Line (Pos (toks ! k)) + 1
                    \<and> Coloumn (Pos (toks ! Suc k)) = 1
               else Line (Pos (toks ! Suc k)) = Line (Pos (toks ! k))
                    \<and> Coloumn (Pos (toks ! k)) \<le> Coloumn (Pos (toks ! Suc k))))
       \<and> (\<forall>i j. i < j \<and> j < n \<longrightarrow> posLe (Pos (toks ! i)) (Pos (toks ! j)))"
proof -
  let ?t = "Load U input NewTokenizer"
  have s: "stdRegex ?t" by (rule stdRegex_Load)
  from nextN_total[OF s, of n] assms have len: "length toks = n" by auto
  from nextN_successively[OF s assms] have
    su: "successively posStep toks" and
    hd: "toks \<noteq> [] \<longrightarrow> Pos (hd toks) = \<lparr>Line = line ?t, Coloumn = column ?t\<rparr>" by simp_all
  have "0 < n \<longrightarrow> Pos (toks ! 0) = \<lparr>Line = 1, Coloumn = 1\<rparr>"
    using hd len by (cases toks) (simp_all add: Load_def)
  moreover have "posStep (toks ! k) (toks ! Suc k)" if "Suc k < n" for k
    using su that len by (simp add: successively_conv_nth)
  moreover have "posLe (Pos (toks ! i)) (Pos (toks ! j))" if "i < j" "j < n" for i j
  proof -
    have sc: "successively (\<lambda>a b. posLe (Pos a) (Pos b)) toks"
      by (rule successively_mono[OF su]) (rule posStep_posLe)
    have tr: "transp (\<lambda>a b. posLe (Pos a) (Pos b))"
      by (auto simp: transp_def posLe_def)
    have srt: "sorted_wrt (\<lambda>a b. posLe (Pos a) (Pos b)) toks"
      using sc unfolding successively_conv_sorted_wrt[OF tr] .
    from sorted_wrt_nth_less[OF srt, of i j] that len show ?thesis by simp
  qed
  ultimately show ?thesis
    using posStep_posLe by (auto simp: posStep_def)
qed

theorem C9_positions_monotone_witness:
  "nextN 4 (Load id ''a\<newline>b'' NewTokenizer)
     = Inr ([\<lparr>Type = TypeID, Value = ''a'', Pos = \<lparr>Line = 1, Coloumn = 1\<rparr>\<rparr>,
             \<lparr>Type = TypeNewline, Value = [], Pos = \<lparr>Line = 1, Coloumn = 2\<rparr>\<rparr>,
             \<lparr>Type = TypeID, Value = ''b'', Pos = \<lparr>Line = 2, Coloumn = 1\<rparr>\<rparr>,
             \<lparr>Type = TypeEOF, Value = [], Pos = \<lparr>Line = 2, Coloumn = 2\<rparr>\<rparr>],
            (Load id ''a\<newline>b'' NewTokenizer)\<lparr>line := 2, column := 2, remaining := []\<rparr>)
   \<and> Suc 1 < (4::nat)
   \<and> posLe \<lparr>Line = 1, Coloumn = 2\<rparr> \<lparr>Line = 2, Coloumn = 1\<rparr>
   \<and> Suc 0 < (4::nat)
   \<and> posLe \<lparr>Line = 1, Coloumn = 1\<rparr> \<lparr>Line = 1, Coloumn = 2\<rparr>"
proof -
  have e: "nextN 4 (Load id ''a\<newline>b'' NewTokenizer)
     = Inr ([\<lparr>Type = TypeID, Value = ''a'', Pos = \<lparr>Line = 1, Coloumn = 1\<rparr>\<rparr>,
             \<lparr>Type = TypeNewline, Value = [], Pos = \<lparr>Line = 1, Coloumn = 2\<rparr>\<rparr>,
             \<lparr>Type = TypeID, Value = ''b'', Pos = \<lparr>Line = 2, Coloumn = 1\<rparr>\<rparr>,
             \<lparr>Type = TypeEOF, Value = [], Pos = \<lparr>Line = 2, Coloumn = 2\<rparr>\<rparr>],
            (Load id ''a\<newline>b'' NewTokenizer)\<lparr>line := 2, column := 2, remaining := []\<rparr>)"
    by code_simp
  from C9_positions_monotone[OF e] have
    "\<forall>k. Suc k < 4 \<longrightarrow>
        posLe (Pos ([\<lparr>Type = TypeID, Value = ''a'', Pos = \<lparr>Line = 1, Coloumn = 1\<rparr>\<rparr>,
             \<lparr>Type = TypeNewline, Value = [], Pos = \<lparr>Line = 1, Coloumn = 2\<rparr>\<rparr>,
             \<lparr>Type = TypeID, Value = ''b'', Pos = \<lparr>Line = 2, Coloumn = 1\<rparr>\<rparr>,
             \<lparr>Type = TypeEOF, Value = [], Pos = \<lparr>Line = 2, Coloumn = 2\<rparr>\<rparr>] ! k))
          (Pos ([\<lparr>Type = TypeID, Value = ''a'', Pos = \<lparr>Line = 1, Coloumn = 1\<rparr>\<rparr>,
             \<lparr>Type = TypeNewline, Value = [], Pos = \<lparr>Line = 1, Coloumn = 2\<rparr>\<rparr>,
             \<lparr>Type = TypeID, Value = ''b'', Pos = \<lparr>Line = 2, Coloumn = 1\<rparr>\<rparr>,
             \<lparr>Type = TypeEOF, Value = [], Pos = \<lparr>Line = 2, Coloumn = 2\<rparr>\<rparr>] ! Suc k))"
    by blast
  from this[rule_format, of 1] this[rule_format, of 0] e show ?thesis by simp
qed

text \<open>
  Claim C10. When the remaining text is a colon followed by a keyword word, as in \<open>":if"\<close>,
  \<open>Next\<close> returns one Identifier token whose value is the colon and the word, and consumes
  all of it; \<open>getKeyword\<close> finds nothing, since \<open>\b\<close> does not hold in front of the colon
  at the start of the text, and the identifier pattern takes the optional colon.
\<close>

theorem C10_colon_keyword:
  assumes "stdRegex t" and "kw \<in> set keywordList" and "remaining t = CHR '':'' # kw"
  shows "Next t = Inr (\<lparr>Type = TypeID, Value = CHR '':'' # kw,
                         Pos = \<lparr>Line = line t, Coloumn = column t\<rparr>\<rparr>,
                       t\<lparr>column := column t + int (length kw) + 1, remaining := []\<rparr>)
       \<and> getKeyword t = Inr (None, t)
       \<and> rmatch WordBoundary ([], remaining t, None) = []
       \<and> Find identifierRegex (remaining t) = Some (CHR '':'' # kw)"
proof (intro conjI)
  show "Next t = Inr (\<lparr>Type = TypeID, Value = CHR '':'' # kw,
                         Pos = \<lparr>Line = line t, Coloumn = column t\<rparr>\<rparr>,
                       t\<lparr>column := column t + int (length kw) + 1, remaining := []\<rparr>)"
    using Next_colon_keyword[OF assms] assms(3)
    by (simp add: newToken_def consumed_def add.commute)
  show "getKeyword t = Inr (None, t)"
    using assms(1,3)
    by (simp add: getKeyword_eq stdRegex_def FindSubmatch_keywordRegex_first isWordChar_def
        inRanges_def)
  show "rmatch WordBoundary ([], remaining t, None) = []"
    using assms(3) by (simp add: wordAt_def isWordChar_def inRanges_def)
  show "Find identifierRegex (remaining t) = Some (CHR '':'' # kw)"
    using Find_identifier_colon_keyword assms(2,3) by (simp add: list_all_iff)
qed

theorem C10_colon_keyword_witness:
  "stdRegex (Load id '':if'' NewTokenizer) \<and> ''if'' \<in> set keywordList
   \<and> remaining (Load id '':if'' NewTokenizer) = CHR '':'' # ''if''
   \<and> Next (Load id '':if'' NewTokenizer)
       = Inr (\<lparr>Type = TypeID, Value = '':if'', Pos = \<lparr>Line = 1, Coloumn = 1\<rparr>\<rparr>,
              (Load id '':if'' NewTokenizer)\<lparr>column := 4, remaining := []\<rparr>)"
proof -
  have s: "stdRegex (Load id '':if'' NewTokenizer)" by (rule stdRegex_Load)
  have k: "''if'' \<in> set keywordList" by (simp add: keywordList_def)
  have r: "remaining (Load id '':if'' NewTokenizer) = CHR '':'' # ''if''"
    by (simp add: Load_def ToLower_def)
  from C10_colon_keyword[OF s k r] s k r show ?thesis by (simp add: Load_def)
qed

end
